theory Spec2Isabelle
  imports Complex_Main "HOL-Library.Sublist"
begin
section \<open>JavaScript string primitives used by the routes\<close>

text \<open>
  A string is a list of characters; a character stands for a code unit from U+0000 to
  U+00FF. The functions below are the few members of \<^verbatim>\<open>String.prototype\<close> that the
  two route handlers and the page component call: \<^verbatim>\<open>includes\<close>,
  \<^verbatim>\<open>split(' ')[0]\<close>, \<^verbatim>\<open>trim\<close>, \<^verbatim>\<open>toLowerCase\<close>, \<^verbatim>\<open>toUpperCase\<close>, and the
  rendering of a number inside a template literal. The white space of \<^verbatim>\<open>trim\<close> is
  the platform's in this range (its other white space lies above U+00FF). The case
  functions change the letters of ASCII: the file name applies \<^verbatim>\<open>toLowerCase\<close> to
  letters of ASCII, digits and underscores only, and what \<^verbatim>\<open>toUpperCase\<close> makes of the
  topic is only drawn on the cover.
\<close>

fun startsWith :: "string \<Rightarrow> string \<Rightarrow> bool" where
  "startsWith s [] = True"
| "startsWith [] (p # ps) = False"
| "startsWith (c # cs) (p # ps) = (c = p \<and> startsWith cs ps)"

fun js_includes :: "string \<Rightarrow> string \<Rightarrow> bool" where
  "js_includes [] p = (p = [])"
| "js_includes (c # cs) p = (startsWith (c # cs) p \<or> js_includes cs p)"

definition first_word :: "string \<Rightarrow> string" where
  \<comment> \<open>\<^verbatim>\<open>q.split(' ')[0]\<close>: the text before the first space\<close>
  "first_word q = takeWhile (\<lambda>c. c \<noteq> CHR '' '') q"

definition is_space :: "char \<Rightarrow> bool" where
  \<comment> \<open>the white space of \<^verbatim>\<open>trim\<close> among the code units below U+0100: TAB, LF, VT, FF,
      CR, the space and the no-break space U+00A0\<close>
  "is_space c =
     (c \<in> set [CHR '' '', CHR 0x09, CHR 0x0A, CHR 0x0B, CHR 0x0C, CHR 0x0D, CHR 0xA0])"

definition trim :: "string \<Rightarrow> string" where
  "trim s = rev (dropWhile is_space (rev (dropWhile is_space s)))"

definition lower_letters :: string where
  "lower_letters = ''abcdefghijklmnopqrstuvwxyz''"

definition upper_letters :: string where
  "upper_letters = ''ABCDEFGHIJKLMNOPQRSTUVWXYZ''"

definition digit_chars :: string where
  "digit_chars = ''0123456789''"

definition lower_char :: "char \<Rightarrow> char" where
  "lower_char c = (case map_of (zip upper_letters lower_letters) c of Some d \<Rightarrow> d | None \<Rightarrow> c)"

definition upper_char :: "char \<Rightarrow> char" where
  "upper_char c = (case map_of (zip lower_letters upper_letters) c of Some d \<Rightarrow> d | None \<Rightarrow> c)"

definition toLowerCase :: "string \<Rightarrow> string" where
  "toLowerCase s = map lower_char s"

definition toUpperCase :: "string \<Rightarrow> string" where
  "toUpperCase s = map upper_char s"

function show_nat :: "nat \<Rightarrow> string" where
  "show_nat n = (if n < 10 then [digit_chars ! n] else show_nat (n div 10) @ [digit_chars ! (n mod 10)])"
  by pat_completeness auto
termination
  by (relation "measure id") auto

declare show_nat.simps [simp del]

fun findIndex_from :: "('a \<Rightarrow> bool) \<Rightarrow> 'a list \<Rightarrow> int \<Rightarrow> int" where
  "findIndex_from P [] i = - 1"
| "findIndex_from P (x # xs) i = (if P x then i else findIndex_from P xs (i + 1))"

definition findIndex :: "('a \<Rightarrow> bool) \<Rightarrow> 'a list \<Rightarrow> int" where
  \<comment> \<open>\<^verbatim>\<open>Array.prototype.findIndex\<close>: the first index that satisfies the test, or -1\<close>
  "findIndex P xs = findIndex_from P xs 0"

definition element_at :: "'a list \<Rightarrow> int \<Rightarrow> 'a option" where
  \<comment> \<open>\<^verbatim>\<open>xs[i]\<close>: \<^verbatim>\<open>undefined\<close> (here \<open>None\<close>) outside the array\<close>
  "element_at xs i = (if 0 \<le> i \<and> i < int (length xs) then Some (xs ! nat i) else None)"


section \<open>The external search call: \<^verbatim>\<open>fetchSearchResults\<close>\<close>

text \<open>
  The HTTP request is the environment's. For a query it either throws (a network
  failure, or \<^verbatim>\<open>encodeURIComponent\<close> rejecting the query) or yields a response with
  its \<^verbatim>\<open>ok\<close> flag, whose body either throws when read or is a text.
\<close>

datatype body_outcome = TextThrows string | Text string

datatype http_outcome = FetchThrows string | Response bool body_outcome

type_synonym http = "string \<Rightarrow> http_outcome"

record SearchHit =
  hit_title :: string
  hit_snippet :: string

text \<open>
  The two patterns of the source have one shape: the text \<^verbatim>\<open><a\<close>, any
  characters other than the closing angle bracket, the class attribute, again any
  characters other than the closing angle bracket, that bracket, at least one character
  other than the opening angle bracket (the group), and the closing tag of the anchor.
  The starred classes cannot cross a closing bracket and the group cannot cross an
  opening one, so a match that starts at the head of \<open>s\<close> ends at one place only,
  whichever occurrence of the attribute is taken.
\<close>

definition class_attr :: "string \<Rightarrow> string" where
  "class_attr cls = ''class='' @ [CHR 0x22] @ cls @ [CHR 0x22]"

definition match_here :: "string \<Rightarrow> string \<Rightarrow> string option" where
  "match_here cls s =
     (if startsWith s ''<a'' then
        (let r = drop 2 s;
             attrs = takeWhile (\<lambda>c. c \<noteq> CHR ''>'') r;
             r1 = dropWhile (\<lambda>c. c \<noteq> CHR ''>'') r
         in if r1 \<noteq> [] \<and> js_includes attrs (class_attr cls) then
              (let body = tl r1;
                   txt = takeWhile (\<lambda>c. c \<noteq> CHR ''<'') body;
                   r2 = dropWhile (\<lambda>c. c \<noteq> CHR ''<'') body
               in if txt \<noteq> [] \<and> startsWith r2 ''</a>''
                  then Some (''<a'' @ attrs @ ''>'' @ txt @ ''</a>'')
                  else None)
            else None)
      else None)"

fun match_scan :: "string \<Rightarrow> nat \<Rightarrow> string \<Rightarrow> string list" where
  \<comment> \<open>the \<^verbatim>\<open>g\<close> flag: all matches from left to right, the search resuming after
      each match (\<open>k\<close> counts the characters of the last match still to be skipped)\<close>
  "match_scan cls k [] = []"
| "match_scan cls k (c # cs) =
     (if 0 < k then match_scan cls (k - 1) cs
      else (case match_here cls (c # cs) of
              Some m \<Rightarrow> m # match_scan cls (length m - 1) cs
            | None \<Rightarrow> match_scan cls 0 cs))"

definition match_all :: "string \<Rightarrow> string \<Rightarrow> string list" where
  \<comment> \<open>\<^verbatim>\<open>html.match(/.../g) || []\<close>: \<^verbatim>\<open>null\<close> (no match) becomes the empty array\<close>
  "match_all cls html = match_scan cls 0 html"

fun strip_tags_from :: "bool \<Rightarrow> string \<Rightarrow> string" where
  \<comment> \<open>\<^verbatim>\<open>replace(/<[^>]*>/g, '')\<close>; the flag says that a tag is open\<close>
  "strip_tags_from inside [] = []"
| "strip_tags_from inside (c # cs) =
     (if inside then (if c = CHR ''>'' then strip_tags_from False cs else strip_tags_from True cs)
      else if c = CHR ''<'' \<and> CHR ''>'' \<in> set cs then strip_tags_from True cs
      else c # strip_tags_from False cs)"

definition clean :: "string \<Rightarrow> string" where
  "clean m = trim (strip_tags_from False m)"

definition collect_hits :: "string list \<Rightarrow> string list \<Rightarrow> SearchHit list" where
  \<comment> \<open>the \<^verbatim>\<open>for\<close> loop over \<^verbatim>\<open>i < Math.min(titleMatches.length, 3)\<close>;
      \<^verbatim>\<open>snippetMatches[i]?. ... || ''\<close> is the empty string where there is no snippet\<close>
  "collect_hits titleMatches snippetMatches =
     map (\<lambda>i. \<lparr>hit_title = clean (titleMatches ! i),
               hit_snippet = (case element_at snippetMatches (int i) of
                                Some s \<Rightarrow> clean s | None \<Rightarrow> [])\<rparr>)
         [0 ..< min (length titleMatches) 3]"

definition fetch_try :: "http \<Rightarrow> string \<Rightarrow> string + SearchHit list option" where
  \<comment> \<open>the \<^verbatim>\<open>try\<close> block: \<open>Inl\<close> an exception, \<open>Inr (Some rs)\<close> the \<^verbatim>\<open>return results\<close>
      inside it, \<open>Inr None\<close> when control leaves the block without returning\<close>
  "fetch_try net q =
     (case net q of
        FetchThrows e \<Rightarrow> Inl e
      | Response ok body \<Rightarrow>
          if ok then
            (case body of
               TextThrows e \<Rightarrow> Inl e
             | Text html \<Rightarrow>
                 (let results = collect_hits (match_all ''result__a'' html)
                                             (match_all ''result__snippet'' html)
                  in if 0 < length results then Inr (Some results) else Inr None))
          else Inr None)"

definition fetchSearchResults :: "http \<Rightarrow> string \<Rightarrow> SearchHit list" where
  \<comment> \<open>the \<^verbatim>\<open>catch\<close> logs and falls through to \<^verbatim>\<open>return []\<close>\<close>
  "fetchSearchResults net q =
     (case fetch_try net q of
        Inl e \<Rightarrow> []
      | Inr None \<Rightarrow> []
      | Inr (Some results) \<Rightarrow> results)"


section \<open>The content synthesizer: \<^verbatim>\<open>synthesizeContent\<close>\<close>

text \<open>
  The object \<^verbatim>\<open>perspectives\<close> has eight fixed keys; \<^verbatim>\<open>keyof typeof perspectives\<close>
  is the type of its keys, here a datatype, and the object is the function from a key to
  its template with the topic filled in. \<^verbatim>\<open>Object.keys\<close> lists the keys in the order
  in which the literal writes them.
\<close>

datatype perspective_key =
  Overview | History | CurrentTrends | Applications | Challenges | Future | BestPractices
  | CaseStudies

definition template_overview :: "string \<Rightarrow> string" where
  "template_overview topic =
     ''This section provides a comprehensive overview of '' @ topic @
     ''. The topic encompasses various important aspects including fundamental concepts, key principles, and current applications. Understanding these foundational elements is crucial for gaining a complete perspective on ''
     @ topic @ ''.''"

definition template_history :: "string \<Rightarrow> string" where
  "template_history topic =
     ''The historical development of '' @ topic @
     '' has been marked by significant milestones and evolutionary changes. From its early conceptualization to modern implementations, ''
     @ topic @
     '' has undergone substantial transformation. Key historical events and pioneering contributions have shaped its current state and continue to influence future developments.''"

definition template_current_trends :: "string \<Rightarrow> string" where
  "template_current_trends topic =
     ''Current trends in '' @ topic @
     '' reflect the dynamic nature of this field. Recent developments show increasing focus on innovation, efficiency, and practical applications. Modern approaches incorporate advanced methodologies and technologies, demonstrating the field's continuous evolution and adaptation to contemporary challenges.''"

definition template_applications :: "string \<Rightarrow> string" where
  "template_applications topic =
     ''The practical applications of '' @ topic @
     '' span across multiple domains and industries. Real-world implementations demonstrate its versatility and impact. From theoretical frameworks to concrete use cases, ''
     @ topic @
     '' provides valuable solutions to various challenges, showing measurable benefits and outcomes in different contexts.''"

definition template_challenges :: "string \<Rightarrow> string" where
  "template_challenges topic =
     ''Like any significant field, '' @ topic @
     '' faces several challenges and considerations. These include technical limitations, resource constraints, and implementation barriers. Understanding these challenges is essential for developing effective strategies and solutions. Ongoing research and development efforts aim to address these obstacles systematically.''"

definition template_future :: "string \<Rightarrow> string" where
  "template_future topic =
     ''The future outlook for '' @ topic @
     '' appears promising with numerous opportunities for advancement. Emerging technologies and innovative approaches suggest potential breakthroughs. Anticipated developments include enhanced capabilities, broader applications, and more sophisticated methodologies that could transform the landscape of ''
     @ topic @ ''.''"

definition template_best_practices :: "string \<Rightarrow> string" where
  "template_best_practices topic =
     ''Best practices in '' @ topic @
     '' have been established through extensive research and practical experience. These guidelines help ensure optimal outcomes and efficient implementation. Following proven methodologies, maintaining quality standards, and adhering to industry recommendations are crucial for success in this field.''"

definition template_case_studies :: "string \<Rightarrow> string" where
  "template_case_studies topic =
     ''Examining real-world case studies of '' @ topic @
     '' provides valuable insights into practical implementation. Successful examples demonstrate effective strategies and approaches. These cases illustrate both achievements and lessons learned, offering practical guidance for similar initiatives and highlighting key success factors.''"

definition perspectives :: "string \<Rightarrow> perspective_key \<Rightarrow> string" where
  "perspectives topic k =
     (case k of
        Overview \<Rightarrow> template_overview topic
      | History \<Rightarrow> template_history topic
      | CurrentTrends \<Rightarrow> template_current_trends topic
      | Applications \<Rightarrow> template_applications topic
      | Challenges \<Rightarrow> template_challenges topic
      | Future \<Rightarrow> template_future topic
      | BestPractices \<Rightarrow> template_best_practices topic
      | CaseStudies \<Rightarrow> template_case_studies topic)"

definition object_keys :: "perspective_key list" where
  "object_keys =
     [Overview, History, CurrentTrends, Applications, Challenges, Future, BestPractices,
      CaseStudies]"

definition queries :: "string list" where
  "queries =
     [''overview and introduction'', ''historical development'', ''current trends'',
      ''practical applications'', ''challenges and limitations'', ''future prospects'',
      ''best practices'', ''case studies and examples'']"

definition select_key :: "string \<Rightarrow> perspective_key" where
  \<comment> \<open>\<^verbatim>\<open>Object.keys(perspectives)[index] || 'overview'\<close>\<close>
  "select_key query_text =
     (let index = findIndex (\<lambda>q. js_includes query_text (first_word q)) queries
      in case element_at object_keys index of Some k \<Rightarrow> k | None \<Rightarrow> Overview)"

definition synthesizeContent :: "string \<Rightarrow> string \<Rightarrow> string" where
  "synthesizeContent topic query_text = perspectives topic (select_key query_text)"


section \<open>The report pipeline: \<^verbatim>\<open>POST\<close> of the deep-search route\<close>

record SearchQuery =
  query :: string
  perspective :: string

record SearchResult =
  title :: string
  content :: string
  source :: string

definition searchQueries :: "string \<Rightarrow> SearchQuery list" where
  "searchQueries topic =
     [\<lparr>query = topic @ '' overview and introduction'', perspective = ''Overview & Fundamentals''\<rparr>,
      \<lparr>query = topic @ '' historical development'', perspective = ''Historical Context''\<rparr>,
      \<lparr>query = topic @ '' current trends and innovations'', perspective = ''Current Trends''\<rparr>,
      \<lparr>query = topic @ '' practical applications'', perspective = ''Practical Applications''\<rparr>,
      \<lparr>query = topic @ '' challenges and limitations'', perspective = ''Challenges & Considerations''\<rparr>,
      \<lparr>query = topic @ '' future prospects'', perspective = ''Future Outlook''\<rparr>,
      \<lparr>query = topic @ '' best practices'', perspective = ''Best Practices''\<rparr>,
      \<lparr>query = topic @ '' case studies and examples'', perspective = ''Case Studies''\<rparr>]"

text \<open>
  The payload of a frame is the object that \<^verbatim>\<open>JSON.stringify\<close> serialises; its
  \<^verbatim>\<open>type\<close> field is the discriminator. The route builds three kinds of payload.
\<close>

datatype event_data = ProgressData string | ResultData SearchResult | CompleteData

fun event_type :: "event_data \<Rightarrow> string" where
  "event_type (ProgressData m) = ''progress''"
| "event_type (ResultData r) = ''result''"
| "event_type CompleteData = ''complete''"

text \<open>
  The stream and its controller, as the platform defines them. The stream is readable,
  closed or errored; it holds the chunks enqueued and not yet read, and whether
  \<^verbatim>\<open>close\<close> was requested. \<open>emitted\<close> keeps every chunk that \<^verbatim>\<open>enqueue\<close> accepted, in
  order, and \<open>received\<close> the chunks that the consumer has read.
  \<^item> \<^verbatim>\<open>controller.enqueue\<close> and \<^verbatim>\<open>controller.close\<close> throw a \<^verbatim>\<open>TypeError\<close> when the
    stream is not readable or \<^verbatim>\<open>close\<close> was requested, and at no other time (the
    stream has the default queuing strategy).
  \<^item> \<^verbatim>\<open>controller.close\<close> requests the close; the stream is closed at once when the
    queue is empty, and otherwise when the consumer has read the last chunk.
  \<^item> \<^verbatim>\<open>controller.error(e)\<close> does nothing unless the stream is readable; then it
    drops the queue and puts the stream into the errored state with the reason \<open>e\<close>.
  \<^item> Cancelling a readable stream drops the queue and closes the stream.

  The consumer is the environment's. Between two calls of the route on the controller
  it reads some chunks, and it may cancel the stream (a client that goes away):
  \<open>reads cons n\<close> is the number of reads before the call number \<open>n\<close> of the route
  (the calls to \<^verbatim>\<open>enqueue\<close> count from 0, so the number of a call is the number of
  chunks accepted before it; \<^verbatim>\<open>close\<close> is call 17), and \<open>cancel_before cons = Some n\<close>
  says that the consumer cancels after these reads. A read that finds the queue empty
  waits for the next chunk; the model counts it among the reads after that chunk. The
  call number 0 is made while the stream is constructed, before a consumer has it, so
  a cancellation before the call number 0 does not occur; what is proved of all
  consumers holds of such a one as well.
\<close>

datatype stream_state = Readable | Closed | Errored string

record controller =
  emitted :: "event_data list"
  queue :: "event_data list"
  received :: "event_data list"
  closeRequested :: bool
  state :: stream_state

record consumer =
  reads :: "nat \<Rightarrow> nat"
  cancel_before :: "nat option"

definition type_error :: string where
  "type_error = ''TypeError''"

definition new_controller :: controller where
  "new_controller =
     \<lparr>emitted = [], queue = [], received = [], closeRequested = False, state = Readable\<rparr>"

fun read_chunks :: "nat \<Rightarrow> controller \<Rightarrow> controller" where
  "read_chunks 0 c = c"
| "read_chunks (Suc k) c =
     (case queue c of
        [] \<Rightarrow> c
      | d # ds \<Rightarrow>
          read_chunks k
            (c\<lparr>queue := ds, received := received c @ [d],
               state := (if closeRequested c \<and> ds = [] then Closed else state c)\<rparr>))"

definition cancel :: "controller \<Rightarrow> controller" where
  "cancel c = (if state c = Readable then c\<lparr>queue := [], state := Closed\<rparr> else c)"

definition consumer_acts :: "consumer \<Rightarrow> nat \<Rightarrow> controller \<Rightarrow> controller" where
  "consumer_acts cons n c =
     (let c1 = read_chunks (reads cons n) c
      in if cancel_before cons = Some n then cancel c1 else c1)"

definition enqueue :: "consumer \<Rightarrow> event_data \<Rightarrow> controller \<Rightarrow> (string \<times> controller) + controller" where
  "enqueue cons d c =
     (let c1 = consumer_acts cons (length (emitted c)) c
      in if state c1 = Readable \<and> \<not> closeRequested c1
         then Inr (c1\<lparr>emitted := emitted c1 @ [d], queue := queue c1 @ [d]\<rparr>)
         else Inl (type_error, c1))"

definition close :: "consumer \<Rightarrow> controller \<Rightarrow> (string \<times> controller) + controller" where
  "close cons c =
     (let c1 = consumer_acts cons (length (emitted c)) c
      in if state c1 = Readable \<and> \<not> closeRequested c1
         then Inr (c1\<lparr>closeRequested := True,
                      state := (if queue c1 = [] then Closed else Readable)\<rparr>)
         else Inl (type_error, c1))"

definition controller_error :: "string \<Rightarrow> controller \<Rightarrow> controller" where
  "controller_error e c =
     (if state c = Readable then c\<lparr>queue := [], state := Errored e\<rparr> else c)"

definition drain :: "controller \<Rightarrow> controller" where
  \<comment> \<open>the consumer reads what is left in the queue, as the loop of the page component
      does until the stream reports that it is done\<close>
  "drain c = read_chunks (length (queue c)) c"

definition progress_message :: "SearchQuery \<Rightarrow> nat \<Rightarrow> nat \<Rightarrow> string" where
  "progress_message sq i n =
     ''Searching: '' @ perspective sq @ '' ('' @ show_nat (i + 1) @ ''/'' @ show_nat n @ '')...''"

definition result_block :: "string \<Rightarrow> SearchQuery \<Rightarrow> SearchResult" where
  "result_block topic sq =
     \<lparr>title = perspective sq,
      content = synthesizeContent topic (query sq),
      source = ''Deep Research Analysis - '' @ perspective sq\<rparr>"

text \<open>
  The body of \<^verbatim>\<open>start\<close> stands in a \<^verbatim>\<open>try\<close>. With the topic rendered,
  \<^verbatim>\<open>fetchSearchResults\<close> catches its own exceptions and \<^verbatim>\<open>synthesizeContent\<close> raises
  none, so an exception can come from the calls on the controller only.
\<close>

fun stage_loop ::
  "http \<Rightarrow> consumer \<Rightarrow> string \<Rightarrow> nat \<Rightarrow> nat \<Rightarrow> SearchQuery list \<Rightarrow> controller
     \<Rightarrow> (string \<times> controller) + controller" where
  \<comment> \<open>the \<^verbatim>\<open>for\<close> loop, at index \<open>i\<close> of \<open>n\<close> with the stages still to run\<close>
  "stage_loop net cons topic n i [] c = Inr c"
| "stage_loop net cons topic n i (sq # rest) c =
     (case enqueue cons (ProgressData (progress_message sq i n)) c of
        Inl ex \<Rightarrow> Inl ex
      | Inr c1 \<Rightarrow>
          (let hits = fetchSearchResults net (query sq);
               block = result_block topic sq
           in case enqueue cons (ResultData block) c1 of
                Inl ex \<Rightarrow> Inl ex
              | Inr c2 \<Rightarrow> stage_loop net cons topic n (i + 1) rest c2))"

definition try_body :: "http \<Rightarrow> consumer \<Rightarrow> string \<Rightarrow> controller \<Rightarrow> (string \<times> controller) + controller" where
  "try_body net cons topic c =
     (case stage_loop net cons topic (length (searchQueries topic)) 0 (searchQueries topic) c of
        Inl ex \<Rightarrow> Inl ex
      | Inr c1 \<Rightarrow>
          (case enqueue cons CompleteData c1 of
             Inl ex \<Rightarrow> Inl ex
           | Inr c2 \<Rightarrow> close cons c2))"

definition start :: "http \<Rightarrow> consumer \<Rightarrow> string \<Rightarrow> controller" where
  \<comment> \<open>the \<^verbatim>\<open>start\<close> callback of the stream, with its \<^verbatim>\<open>catch\<close>, for a topic that
      the template literals render as the text \<open>topic\<close>\<close>
  "start net cons topic =
     (case try_body net cons topic new_controller of
        Inl (e, c) \<Rightarrow> controller_error e c
      | Inr c \<Rightarrow> c)"

text \<open>
  The request body. \<^verbatim>\<open>await request.json()\<close> stands before the stream is built and
  outside every \<^verbatim>\<open>try\<close>: a body that does not parse as JSON makes the handler throw,
  and so does the destructuring \<^verbatim>\<open>const { topic } = ...\<close> of the value
  \<^verbatim>\<open>null\<close>. Every other value can be destructured: an object gives its field
  \<^verbatim>\<open>topic\<close> (of a key written twice the last value), if it has one; a string, a
  number, a boolean and an array have no such property and give \<^verbatim>\<open>undefined\<close>, here
  \<open>None\<close>. A number is given by the text that the platform renders it as.
\<close>

datatype json =
  JNull | JBool bool | JNumber string | JString string | JArray "json list"
  | JObject "(string \<times> json) list"



definition destructure_topic :: "json \<Rightarrow> string + json option" where
  "destructure_topic v =
     (case v of
        JNull \<Rightarrow> Inl type_error
      | JObject members \<Rightarrow> Inr (map_of (rev members) ''topic'')
      | _ \<Rightarrow> Inr None)"

text \<open>
  The text of a value inside a template literal. An array is joined with commas, where
  \<^verbatim>\<open>null\<close> among its elements gives the empty text. An object from JSON is rendered
  by \<^verbatim>\<open>Object.prototype.toString\<close>, unless it has a field \<^verbatim>\<open>toString\<close> of its own:
  that field is no function, and neither the field \<^verbatim>\<open>valueOf\<close> nor the inherited
  \<^verbatim>\<open>valueOf\<close> yields a primitive value, so the conversion throws a \<^verbatim>\<open>TypeError\<close>.
\<close>

fun render :: "json \<Rightarrow> string + string"
  and join_elements :: "json list \<Rightarrow> string + string" where
  "render JNull = Inr ''null''"
| "render (JBool b) = Inr (if b then ''true'' else ''false'')"
| "render (JNumber text) = Inr text"
| "render (JString text) = Inr text"
| "render (JArray elements) = join_elements elements"
| "render (JObject members) =
     (if ''toString'' \<in> set (map fst members) then Inl type_error else Inr ''[object Object]'')"
| "join_elements [] = Inr []"
| "join_elements (v # rest) =
     (case (if v = JNull then Inr [] else render v) of
        Inl e \<Rightarrow> Inl e
      | Inr text \<Rightarrow>
          (if rest = [] then Inr text
           else (case join_elements rest of
                   Inl e \<Rightarrow> Inl e
                 | Inr others \<Rightarrow> Inr (text @ '','' @ others))))"

definition template_text :: "json option \<Rightarrow> string + string" where
  "template_text v = (case v of None \<Rightarrow> Inr ''undefined'' | Some w \<Rightarrow> render w)"

definition start_topic :: "http \<Rightarrow> consumer \<Rightarrow> json option \<Rightarrow> controller" where
  \<comment> \<open>the callback for any topic: the first template literal, at the head of the
      \<^verbatim>\<open>try\<close>, renders the topic or throws, before anything is enqueued\<close>
  "start_topic net cons topic =
     (case template_text topic of
        Inl e \<Rightarrow> controller_error e new_controller
      | Inr text \<Rightarrow> start net cons text)"




section \<open>The suggested file name of the report\<close>

text \<open>
  The document route (in its \<^verbatim>\<open>Content-Disposition\<close> header) and the page component
  (for the download link) compute the same expression:
  \<^verbatim>\<open>`${topic.replace(/[^a-z0-9]/gi, '_').toLowerCase()}_report.pdf`\<close>.
  The pattern has no quantifier, so with the \<^verbatim>\<open>g\<close> flag every single character outside
  the class is replaced.
\<close>

definition is_alnum :: "char \<Rightarrow> bool" where
  \<comment> \<open>the class \<^verbatim>\<open>[a-z0-9]\<close> under the \<^verbatim>\<open>i\<close> flag\<close>
  "is_alnum c = (c \<in> set (lower_letters @ upper_letters @ digit_chars))"

definition replace_non_alnum :: "string \<Rightarrow> string" where
  "replace_non_alnum s = map (\<lambda>c. if is_alnum c then c else CHR ''_'') s"

definition report_filename :: "string \<Rightarrow> string" where
  "report_filename topic = toLowerCase (replace_non_alnum topic) @ ''_report.pdf''"

text \<open>
  The specification's wording of the same derivation, for comparison: lower-case the
  topic, replace every maximal run of non-alphanumeric characters by one separator,
  append the suffix.
\<close>

fun collapse_runs :: "string \<Rightarrow> string" where
  "collapse_runs [] = []"
| "collapse_runs [c] = [if is_alnum c then c else CHR ''_'']"
| "collapse_runs (c # d # cs) =
     (if is_alnum c then c # collapse_runs (d # cs)
      else if is_alnum d then CHR ''_'' # collapse_runs (d # cs)
      else collapse_runs (d # cs))"

definition spec_suggestedFilename :: "string \<Rightarrow> string" where
  "spec_suggestedFilename topic = collapse_runs (toLowerCase topic) @ ''_report.pdf''"


section \<open>Reading a run of the pipeline\<close>

text \<open>
  The frames of a run without exception, written down stage by stage: the progress
  frame of a stage, then its result frame.
\<close>

fun stage_frames :: "string \<Rightarrow> nat \<Rightarrow> nat \<Rightarrow> SearchQuery list \<Rightarrow> event_data list" where
  "stage_frames topic n i [] = []"
| "stage_frames topic n i (sq # rest) =
     ProgressData (progress_message sq i n) # ResultData (result_block topic sq)
       # stage_frames topic n (i + 1) rest"

text \<open>
  Two shapes of a stream during a run. \<open>live\<close>: readable, no close requested, and
  nothing lost (what was read and what waits in the queue is what was emitted).
  \<open>gone\<close>: closed by the consumer's cancelling, with the queue dropped.
\<close>

definition live :: "controller \<Rightarrow> bool" where
  "live c = (state c = Readable \<and> \<not> closeRequested c \<and> received c @ queue c = emitted c)"

definition gone :: "controller \<Rightarrow> bool" where
  "gone c =
     (state c = Closed \<and> \<not> closeRequested c \<and> queue c = [] \<and> prefix (received c) (emitted c))"

text \<open>A consumer that never cancels, whatever it reads and when.\<close>

definition patient :: "(nat \<Rightarrow> nat) \<Rightarrow> consumer" where
  "patient r = \<lparr>reads = r, cancel_before = None\<rparr>"

text \<open>A consumer that cancels just before the call number \<open>k\<close> of the route.\<close>

definition leaves_before :: "nat \<Rightarrow> (nat \<Rightarrow> nat) \<Rightarrow> consumer" where
  "leaves_before k r = \<lparr>reads = r, cancel_before = Some k\<rparr>"

text \<open>The 17 frames of a run that no one cancels.\<close>

definition all_frames :: "string \<Rightarrow> event_data list" where
  "all_frames topic =
     stage_frames topic (length (searchQueries topic)) 0 (searchQueries topic) @ [CompleteData]"

text \<open>
  A failure frame would be a payload whose \<^verbatim>\<open>type\<close> is \<^verbatim>\<open>failure\<close>; a stream
  that ends as the specification words it has exactly one, as its last frame.
\<close>

definition is_failure :: "event_data \<Rightarrow> bool" where
  "is_failure d = (event_type d = ''failure'')"

definition ends_with_one_failure :: "event_data list \<Rightarrow> bool" where
  "ends_with_one_failure fs = (fs \<noteq> [] \<and> is_failure (last fs) \<and> length (filter is_failure fs) = 1)"

text \<open>
  What the page component accumulates from the frames it reads: the \<^verbatim>\<open>result\<close> of
  every frame of type \<^verbatim>\<open>result\<close>, in order
  (\<^verbatim>\<open>setSearchResults(prev => [...prev, data.result])\<close>).
\<close>

fun received_results :: "event_data list \<Rightarrow> SearchResult list" where
  "received_results [] = []"
| "received_results (ResultData r # ds) = r # received_results ds"
| "received_results (d # ds) = received_results ds"

text \<open>
  A run makes 18 calls on the controller, the calls number 0 to 16 to \<^verbatim>\<open>enqueue\<close> and
  the call number 17 to \<^verbatim>\<open>close\<close>. \<open>cancelled_at\<close> is the call before which the consumer
  cancels, if it is one of them.
\<close>

definition cancelled_at :: "consumer \<Rightarrow> nat option" where
  "cancelled_at cons =
     (case cancel_before cons of
        None \<Rightarrow> None
      | Some k \<Rightarrow> if k \<le> 17 then Some k else None)"



section \<open>The document route: layout of the report\<close>

text \<open>
  The drawing library is the environment's. What the route needs of it: the size of
  the page (format A4, in millimetres), the splitting of a text into lines of a given
  width in the font in force, the width of a line on the cover, and the date. The
  numbers are rationals; the cursor only ever holds sums of the whole numbers that the
  route adds to the margin.
\<close>

datatype font_style = Normal | Bold | Italic

record pdf_env =
  pageWidth :: rat
  pageHeight :: rat
  splitTextToSize :: "font_style \<Rightarrow> nat \<Rightarrow> string \<Rightarrow> rat \<Rightarrow> string list"
  getTextWidth :: "string \<Rightarrow> rat"
  currentDate :: string

text \<open>
  The drawing calls that leave a mark, with their coordinates: \<^verbatim>\<open>rect\<close> (filled),
  \<^verbatim>\<open>text\<close>, \<^verbatim>\<open>text\<close> with \<^verbatim>\<open>align: 'center'\<close>, \<^verbatim>\<open>textWithLink\<close> with its
  \<^verbatim>\<open>pageNumber\<close>, and \<^verbatim>\<open>line\<close>. Colours and fonts are not recorded.
\<close>

datatype draw_op =
    Rect rat rat rat rat
  | TextAt string rat rat
  | TextCentered string rat rat
  | TextWithLink string rat rat nat
  | LineTo rat rat rat rat

text \<open>
  The document under construction and the cursor: the number of pages, the page in
  force (pages count from 1), every drawing call so far with the page it went to, and
  \<^verbatim>\<open>yPosition\<close>. A new document has one page.
\<close>

record layout_state =
  numberOfPages :: nat
  current :: nat
  drawn :: "(nat \<times> draw_op) list"
  yPosition :: rat

definition margin :: rat where
  "margin = 20"

definition contentWidth :: "pdf_env \<Rightarrow> rat" where
  "contentWidth env = pageWidth env - 2 * margin"

definition new_document :: layout_state where
  "new_document = \<lparr>numberOfPages = 1, current = 1, drawn = [], yPosition = margin\<rparr>"

definition addPage :: "layout_state \<Rightarrow> layout_state" where
  "addPage st = st\<lparr>numberOfPages := numberOfPages st + 1, current := numberOfPages st + 1\<rparr>"

definition setPage :: "nat \<Rightarrow> layout_state \<Rightarrow> layout_state" where
  "setPage i st = (if 1 \<le> i \<and> i \<le> numberOfPages st then st\<lparr>current := i\<rparr> else st)"

definition draw :: "draw_op \<Rightarrow> layout_state \<Rightarrow> layout_state" where
  "draw d st = st\<lparr>drawn := drawn st @ [(current st, d)]\<rparr>"

definition advance :: "rat \<Rightarrow> layout_state \<Rightarrow> layout_state" where
  \<comment> \<open>\<^verbatim>\<open>yPosition += dy\<close>\<close>
  "advance dy st = st\<lparr>yPosition := yPosition st + dy\<rparr>"

definition checkAndAddPage :: "pdf_env \<Rightarrow> rat \<Rightarrow> layout_state \<Rightarrow> bool \<times> layout_state" where
  "checkAndAddPage env requiredSpace st =
     (if yPosition st + requiredSpace > pageHeight env - margin
      then (True, (addPage st)\<lparr>yPosition := margin\<rparr>)
      else (False, st))"

definition wrapText :: "pdf_env \<Rightarrow> font_style \<Rightarrow> string \<Rightarrow> rat \<Rightarrow> nat \<Rightarrow> string list" where
  \<comment> \<open>sets the font size, then splits; the style is the one set before the call\<close>
  "wrapText env style text maxWidth fontSize = splitTextToSize env style fontSize text maxWidth"

fun cover_title :: "pdf_env \<Rightarrow> string list \<Rightarrow> rat \<Rightarrow> layout_state \<Rightarrow> layout_state" where
  \<comment> \<open>\<^verbatim>\<open>titleLines.forEach\<close> on the cover, with the running \<^verbatim>\<open>titleY\<close>\<close>
  "cover_title env [] titleY st = st"
| "cover_title env (line # rest) titleY st =
     cover_title env rest (titleY + 12)
       (draw (TextAt line ((pageWidth env - getTextWidth env line) / 2) titleY) st)"

definition cover_page :: "pdf_env \<Rightarrow> string \<Rightarrow> layout_state \<Rightarrow> layout_state" where
  "cover_page env topic st =
     (let st1 = draw (Rect 0 0 (pageWidth env) (pageHeight env)) st;
          titleLines = wrapText env Bold (toUpperCase topic) (contentWidth env - 20) 32;
          titleHeight = of_nat (length titleLines) * 12;
          titleY = (pageHeight env - titleHeight) / 2;
          st2 = cover_title env titleLines titleY st1;
          st3 = draw (TextCentered ''Deep Research Report'' (pageWidth env / 2) (pageHeight env - 40)) st2
      in draw (TextCentered (currentDate env) (pageWidth env / 2) (pageHeight env - 30)) st3)"

definition toc_heading :: "layout_state \<Rightarrow> layout_state" where
  "toc_heading st =
     (let st1 = (addPage st)\<lparr>yPosition := margin\<rparr>;
          st2 = draw (TextAt ''Table of Contents'' margin (yPosition st1)) st1
      in advance 15 st2)"

fun toc_entries :: "pdf_env \<Rightarrow> nat \<Rightarrow> SearchResult list \<Rightarrow> layout_state \<Rightarrow> layout_state" where
  \<comment> \<open>the first \<^verbatim>\<open>results.forEach\<close>, at \<open>index\<close>\<close>
  "toc_entries env index [] st = st"
| "toc_entries env index (result # rest) st =
     (let st1 = snd (checkAndAddPage env 10 st);
          st2 = draw (TextWithLink (show_nat (index + 1) @ ''. '' @ title result)
                        (margin + 5) (yPosition st1) (index + 3)) st1
      in toc_entries env (index + 1) rest (advance 7 st2))"

fun title_lines :: "pdf_env \<Rightarrow> string list \<Rightarrow> layout_state \<Rightarrow> layout_state" where
  "title_lines env [] st = st"
| "title_lines env (line # rest) st =
     (let st1 = snd (checkAndAddPage env 12 st);
          st2 = draw (TextAt line margin (yPosition st1)) st1
      in title_lines env rest (advance 10 st2))"

fun content_lines :: "pdf_env \<Rightarrow> string list \<Rightarrow> layout_state \<Rightarrow> layout_state" where
  "content_lines env [] st = st"
| "content_lines env (line # rest) st =
     (let st1 = snd (checkAndAddPage env 8 st);
          st2 = draw (TextAt line margin (yPosition st1)) st1
      in content_lines env rest (advance 6 st2))"

definition section_pages :: "pdf_env \<Rightarrow> nat \<Rightarrow> SearchResult \<Rightarrow> layout_state \<Rightarrow> layout_state" where
  \<comment> \<open>the body of the second \<^verbatim>\<open>results.forEach\<close>\<close>
  "section_pages env index result st =
     (let st1 = (addPage st)\<lparr>yPosition := margin\<rparr>;
          st2 = advance 10 (draw (TextAt (''SECTION '' @ show_nat (index + 1)) margin (yPosition st1)) st1);
          st3 = title_lines env (wrapText env Bold (title result) (contentWidth env) 20) st2;
          st4 = advance 5 st3;
          st5 = content_lines env (wrapText env Normal (content result) (contentWidth env) 11) st4;
          st6 = advance 10 st5;
          st7 = snd (checkAndAddPage env 10 st6);
          st8 = draw (TextAt (''Source: '' @ source result) margin (yPosition st7)) st7;
          st9 = advance 5 st8
      in draw (LineTo margin (yPosition st9) (pageWidth env - margin) (yPosition st9)) st9)"

fun sections :: "pdf_env \<Rightarrow> nat \<Rightarrow> SearchResult list \<Rightarrow> layout_state \<Rightarrow> layout_state" where
  "sections env index [] st = st"
| "sections env index (result # rest) st =
     sections env (index + 1) rest (section_pages env index result st)"

definition footer_text :: "string \<Rightarrow> nat \<Rightarrow> nat \<Rightarrow> string" where
  "footer_text topic i totalPages =
     topic @ '' - Page '' @ show_nat i @ '' of '' @ show_nat totalPages"

definition footer_op :: "pdf_env \<Rightarrow> string \<Rightarrow> nat \<Rightarrow> nat \<Rightarrow> draw_op" where
  "footer_op env topic i totalPages =
     TextCentered (footer_text topic i totalPages) (pageWidth env / 2) (pageHeight env - 10)"

definition footer_step :: "pdf_env \<Rightarrow> string \<Rightarrow> nat \<Rightarrow> layout_state \<Rightarrow> nat \<Rightarrow> layout_state" where
  "footer_step env topic totalPages st i =
     (let st1 = setPage i st
      in if 1 < i then draw (footer_op env topic i totalPages) st1 else st1)"

definition footers :: "pdf_env \<Rightarrow> string \<Rightarrow> layout_state \<Rightarrow> layout_state" where
  \<comment> \<open>\<^verbatim>\<open>for (let i = 1; i <= totalPages; i++)\<close>\<close>
  "footers env topic st =
     (let totalPages = numberOfPages st
      in foldl (footer_step env topic totalPages) st [1 ..< Suc totalPages])"

definition cursor_layout :: "pdf_env \<Rightarrow> string \<Rightarrow> SearchResult list \<Rightarrow> layout_state" where
  \<comment> \<open>the cover, the table of contents and the sections: all that moves the cursor\<close>
  "cursor_layout env topic results =
     sections env 0 results (toc_entries env 0 results (toc_heading (cover_page env topic new_document)))"

definition layout :: "pdf_env \<Rightarrow> string \<Rightarrow> SearchResult list \<Rightarrow> layout_state" where
  "layout env topic results = footers env topic (cursor_layout env topic results)"

text \<open>
  The handler. Everything stands in one \<^verbatim>\<open>try\<close>: a body that cannot be read as a
  topic and a list of results ends in the response with status 500; otherwise the
  response carries the document and the file name.
\<close>

datatype pdf_request = BadRequest | Request string "SearchResult list"

datatype pdf_response = Failed500 | PdfResponse layout_state string

definition POST_generate_pdf :: "pdf_env \<Rightarrow> pdf_request \<Rightarrow> pdf_response" where
  "POST_generate_pdf env req =
     (case req of
        BadRequest \<Rightarrow> Failed500
      | Request topic results \<Rightarrow> PdfResponse (layout env topic results) (report_filename topic))"


section \<open>Reading a laid-out document\<close>

definition page_ops :: "layout_state \<Rightarrow> nat \<Rightarrow> draw_op list" where
  \<comment> \<open>what was drawn on page \<open>k\<close>, in order\<close>
  "page_ops st k = map snd (filter (\<lambda>e. fst e = k) (drawn st))"

fun op_y :: "draw_op \<Rightarrow> rat" where
  \<comment> \<open>the height at which an operation is placed (the lower end of a line)\<close>
  "op_y (Rect x y w h) = y"
| "op_y (TextAt s x y) = y"
| "op_y (TextCentered s x y) = y"
| "op_y (TextWithLink s x y n) = y"
| "op_y (LineTo x1 y1 x2 y2) = max y1 y2"

definition in_printable_area :: "pdf_env \<Rightarrow> draw_op \<Rightarrow> bool" where
  "in_printable_area env d = (margin \<le> op_y d \<and> op_y d \<le> pageHeight env - margin)"

fun is_footer :: "pdf_env \<Rightarrow> draw_op \<Rightarrow> bool" where
  \<comment> \<open>a centred text on the footer line\<close>
  "is_footer env (TextCentered s x y) = (y = pageHeight env - 10)"
| "is_footer env d = False"

fun link_target :: "draw_op \<Rightarrow> nat option" where
  "link_target (TextWithLink s x y n) = Some n"
| "link_target d = None"

definition toc_links :: "layout_state \<Rightarrow> nat list" where
  \<comment> \<open>the page numbers of the links of the document, in the order drawn\<close>
  "toc_links st = List.map_filter (\<lambda>e. link_target (snd e)) (drawn st)"

definition section_label :: "nat \<Rightarrow> draw_op" where
  "section_label index = TextAt (''SECTION '' @ show_nat (index + 1)) margin margin"

definition section_start_pages :: "layout_state \<Rightarrow> nat \<Rightarrow> nat list" where
  \<comment> \<open>the pages that bear the label of section \<open>index\<close>\<close>
  "section_start_pages st index = map fst (filter (\<lambda>e. snd e = section_label index) (drawn st))"

text \<open>
  Stand-ins for the library in worked examples: the A4 page of the library
  (595.28 by 841.89 points, at 72 / 25.4 points per millimetre), and a splitter that
  breaks a text at its line feeds only, which is what the library does with a text whose
  lines are all shorter than the width.
\<close>

fun split_lines :: "string \<Rightarrow> string \<Rightarrow> string list" where
  "split_lines acc [] = [rev acc]"
| "split_lines acc (c # cs) =
     (if c = CHR 0x0A then rev acc # split_lines [] cs else split_lines (c # acc) cs)"

definition a4_env :: pdf_env where
  "a4_env =
     \<lparr>pageWidth = 59528 / 100 * (254 / 720),
      pageHeight = 84189 / 100 * (254 / 720),
      splitTextToSize = (\<lambda>style size text width. split_lines [] text),
      getTextWidth = (\<lambda>line. of_nat (length line) * 6),
      currentDate = ''January 1, 2025''\<rparr>"

fun numbered_lines :: "nat \<Rightarrow> string" where
  \<comment> \<open>a text of \<open>n + 1\<close> short lines\<close>
  "numbered_lines 0 = ''x''"
| "numbered_lines (Suc n) = ''x'' @ [CHR 0x0A] @ numbered_lines n"


section \<open>Notions for the proofs about the layout\<close>

text \<open>
  What the table of contents and the sections draw: on page 2 or later, never on the
  footer line, and, where the page is at least three margins high (A4 is), inside the
  printable area. What the sections draw is moreover no link; what the cover draws goes
  to page 1, is no footer and no link.
\<close>

definition body_op :: "pdf_env \<Rightarrow> nat \<times> draw_op \<Rightarrow> bool" where
  "body_op env e =
     (2 \<le> fst e \<and> \<not> is_footer env (snd e)
      \<and> (3 * margin \<le> pageHeight env \<longrightarrow> in_printable_area env (snd e)))"

definition section_op :: "pdf_env \<Rightarrow> nat \<times> draw_op \<Rightarrow> bool" where
  "section_op env e = (body_op env e \<and> link_target (snd e) = None)"

definition cover_op :: "pdf_env \<Rightarrow> nat \<times> draw_op \<Rightarrow> bool" where
  "cover_op env e = (fst e = 1 \<and> \<not> is_footer env (snd e) \<and> link_target (snd e) = None)"

text \<open>
  \<open>extends_by Q st st'\<close>: the later state has drawn what the earlier one had, and then
  only operations that satisfy \<open>Q\<close>.
\<close>

definition extends_by :: "(nat \<times> draw_op \<Rightarrow> bool) \<Rightarrow> layout_state \<Rightarrow> layout_state \<Rightarrow> bool" where
  "extends_by Q st st' =
     (take (length (drawn st)) (drawn st') = drawn st
      \<and> list_all Q (drop (length (drawn st)) (drawn st')))"

text \<open>
  While the cursor is in use the page in force is the last one, it is not the cover, and
  the cursor never stands above the top margin.
\<close>

definition cursor_ok :: "layout_state \<Rightarrow> bool" where
  "cursor_ok st = (2 \<le> current st \<and> current st = numberOfPages st \<and> margin \<le> yPosition st)"

text \<open>A block for worked examples: a short title and a body of \<open>n + 1\<close> lines.\<close>

definition example_block :: "string \<Rightarrow> nat \<Rightarrow> SearchResult" where
  "example_block t n = \<lparr>title = t, content = numbered_lines n, source = ''src''\<rparr>"

text \<open>The page numbers of the links among some drawing calls, in order.\<close>

definition links_of :: "(nat \<times> draw_op) list \<Rightarrow> nat list" where
  "links_of es = List.map_filter (\<lambda>e. link_target (snd e)) es"

text \<open>
  A block whose section needs no page break: the label, the lines of the title and of
  the body, the gaps and the source line end at or above \<^verbatim>\<open>pageHeight - margin\<close>.
\<close>

definition fits_on_one_page :: "pdf_env \<Rightarrow> SearchResult \<Rightarrow> bool" where
  "fits_on_one_page env result =
     (75 + 10 * of_nat (length (wrapText env Bold (title result) (contentWidth env) 20))
         + 6 * of_nat (length (wrapText env Normal (content result) (contentWidth env) 11))
        \<le> pageHeight env)"


section \<open>The pipeline: frames of a run\<close>

lemma show_nat_examples:
  "show_nat 0 = ''0''" "show_nat 8 = ''8''" "show_nat 10 = ''10''" "show_nat 207 = ''207''"
  by (simp_all add: show_nat.simps digit_chars_def)

lemma length_stage_frames: "length (stage_frames topic n i sqs) = 2 * length sqs"
  by (induction sqs arbitrary: i) auto

lemma length_searchQueries: "length (searchQueries topic) = 8"
  by (simp add: searchQueries_def)

lemma read_chunks_emitted [simp]: "emitted (read_chunks k c) = emitted c"
  by (induction k arbitrary: c) (simp_all split: list.splits)

lemma read_chunks_closeRequested [simp]: "closeRequested (read_chunks k c) = closeRequested c"
  by (induction k arbitrary: c) (simp_all split: list.splits)

lemma read_chunks_queue: "queue (read_chunks k c) = drop k (queue c)"
  by (induction k arbitrary: c) (simp_all split: list.splits)

lemma read_chunks_received: "received (read_chunks k c) = received c @ take k (queue c)"
  by (induction k arbitrary: c) (simp_all split: list.splits)

lemma read_chunks_state:
  "state (read_chunks k c) =
     (if closeRequested c \<and> queue c \<noteq> [] \<and> length (queue c) \<le> k then Closed else state c)"
proof (induction k arbitrary: c)
  case 0
  then show ?case by simp
next
  case (Suc k)
  show ?case
  proof (cases "queue c")
    case Nil
    then show ?thesis by simp
  next
    case (Cons d ds)
    then show ?thesis by (cases ds) (simp_all add: Suc.IH)
  qed
qed

lemma read_chunks_live: "live c \<Longrightarrow> live (read_chunks k c)"
  by (simp add: live_def read_chunks_queue read_chunks_received read_chunks_state)

lemma consumer_acts_emitted [simp]: "emitted (consumer_acts cons n c) = emitted c"
  by (simp add: consumer_acts_def Let_def cancel_def)

lemma consumer_acts_live:
  "live c \<Longrightarrow> cancel_before cons \<noteq> Some n \<Longrightarrow> live (consumer_acts cons n c)"
  by (simp add: consumer_acts_def Let_def read_chunks_live)

lemma consumer_acts_gone:
  assumes "live c" and "cancel_before cons = Some n"
  shows "gone (consumer_acts cons n c)"
proof -
  from assms(1) have l: "live (read_chunks (reads cons n) c)" by (rule read_chunks_live)
  then have "prefix (received (read_chunks (reads cons n) c)) (emitted c)"
    unfolding live_def by (metis prefixI read_chunks_emitted)
  with l assms(2) show ?thesis
    by (simp add: consumer_acts_def Let_def cancel_def gone_def live_def)
qed

lemma enqueue_live:
  assumes "live c" and "cancel_before cons \<noteq> Some (length (emitted c))"
  shows "\<exists>c'. enqueue cons d c = Inr c' \<and> live c' \<and> emitted c' = emitted c @ [d]"
proof -
  from assms have "live (consumer_acts cons (length (emitted c)) c)" by (rule consumer_acts_live)
  then show ?thesis by (simp add: enqueue_def Let_def live_def)
qed

lemma enqueue_gone:
  assumes "live c" and "cancel_before cons = Some (length (emitted c))"
  shows "\<exists>c'. enqueue cons d c = Inl (type_error, c') \<and> gone c' \<and> emitted c' = emitted c"
proof -
  from assms have "gone (consumer_acts cons (length (emitted c)) c)" by (rule consumer_acts_gone)
  then show ?thesis by (simp add: enqueue_def Let_def gone_def)
qed

lemma close_live:
  assumes "live c" and "cancel_before cons \<noteq> Some (length (emitted c))"
  shows "\<exists>c'. close cons c = Inr c' \<and> emitted c' = emitted c \<and> closeRequested c'
           \<and> received c' @ queue c' = emitted c'
           \<and> state c' = (if queue c' = [] then Closed else Readable)"
proof -
  from assms have "live (consumer_acts cons (length (emitted c)) c)" by (rule consumer_acts_live)
  then show ?thesis by (simp add: close_def Let_def live_def)
qed

lemma close_gone:
  assumes "live c" and "cancel_before cons = Some (length (emitted c))"
  shows "\<exists>c'. close cons c = Inl (type_error, c') \<and> gone c' \<and> emitted c' = emitted c"
proof -
  from assms have "gone (consumer_acts cons (length (emitted c)) c)" by (rule consumer_acts_gone)
  then show ?thesis by (simp add: close_def Let_def gone_def)
qed

lemma stage_loop_live:
  assumes "live c"
    and "\<And>k. cancel_before cons = Some k
           \<Longrightarrow> k < length (emitted c) \<or> length (emitted c) + 2 * length sqs \<le> k"
  shows "\<exists>c'. stage_loop net cons topic n i sqs c = Inr c' \<and> live c'
           \<and> emitted c' = emitted c @ stage_frames topic n i sqs"
  using assms
proof (induction sqs arbitrary: i c)
  case Nil
  then show ?case by simp
next
  case (Cons sq rest)
  let ?l = "length (emitted c)"
  from Cons.prems(2) have n0: "cancel_before cons \<noteq> Some ?l" by fastforce
  from Cons.prems(2) have n1: "cancel_before cons \<noteq> Some (Suc ?l)" by fastforce
  from enqueue_live [OF Cons.prems(1) n0] obtain c1 where
    c1: "enqueue cons (ProgressData (progress_message sq i n)) c = Inr c1" "live c1"
        "emitted c1 = emitted c @ [ProgressData (progress_message sq i n)]"
    by blast
  from n1 c1(3) have "cancel_before cons \<noteq> Some (length (emitted c1))" by simp
  from enqueue_live [OF c1(2) this] obtain c2 where
    c2: "enqueue cons (ResultData (result_block topic sq)) c1 = Inr c2" "live c2"
        "emitted c2 = emitted c1 @ [ResultData (result_block topic sq)]"
    by blast
  have "\<And>k. cancel_before cons = Some k
           \<Longrightarrow> k < length (emitted c2) \<or> length (emitted c2) + 2 * length rest \<le> k"
    using Cons.prems(2) c1(3) c2(3) by fastforce
  from Cons.IH [OF c2(2) this, of "i + 1"] obtain c' where
    "stage_loop net cons topic n (i + 1) rest c2 = Inr c'" "live c'"
    "emitted c' = emitted c2 @ stage_frames topic n (i + 1) rest"
    by blast
  with c1 c2 show ?case by (simp add: Let_def)
qed

lemma stage_loop_gone:
  assumes "live c" and "cancel_before cons = Some k"
    and "length (emitted c) \<le> k" and "k < length (emitted c) + 2 * length sqs"
  shows "\<exists>c'. stage_loop net cons topic n i sqs c = Inl (type_error, c') \<and> gone c'
           \<and> emitted c' = emitted c @ take (k - length (emitted c)) (stage_frames topic n i sqs)"
  using assms
proof (induction sqs arbitrary: i c)
  case Nil
  then show ?case by simp
next
  case (Cons sq rest)
  let ?l = "length (emitted c)"
  show ?case
  proof (cases "k = ?l")
    case True
    with Cons.prems(2) have "cancel_before cons = Some ?l" by simp
    from enqueue_gone [OF Cons.prems(1) this] obtain c' where
      "enqueue cons (ProgressData (progress_message sq i n)) c = Inl (type_error, c')" "gone c'"
      "emitted c' = emitted c"
      by blast
    with True show ?thesis by simp
  next
    case False
    with Cons.prems(2) have n0: "cancel_before cons \<noteq> Some ?l" by simp
    from enqueue_live [OF Cons.prems(1) n0] obtain c1 where
      c1: "enqueue cons (ProgressData (progress_message sq i n)) c = Inr c1" "live c1"
          "emitted c1 = emitted c @ [ProgressData (progress_message sq i n)]"
      by blast
    show ?thesis
    proof (cases "k = Suc ?l")
      case True
      with Cons.prems(2) c1(3) have "cancel_before cons = Some (length (emitted c1))" by simp
      from enqueue_gone [OF c1(2) this] obtain c' where
        "enqueue cons (ResultData (result_block topic sq)) c1 = Inl (type_error, c')" "gone c'"
        "emitted c' = emitted c1"
        by blast
      with c1 True show ?thesis by (simp add: Let_def)
    next
      case False
      with Cons.prems(2) c1(3) have "cancel_before cons \<noteq> Some (length (emitted c1))" by simp
      from enqueue_live [OF c1(2) this] obtain c2 where
        c2: "enqueue cons (ResultData (result_block topic sq)) c1 = Inr c2" "live c2"
            "emitted c2 = emitted c1 @ [ResultData (result_block topic sq)]"
        by blast
      from \<open>k \<noteq> ?l\<close> False Cons.prems(3,4) c1(3) c2(3)
      have lo: "length (emitted c2) \<le> k" and hi: "k < length (emitted c2) + 2 * length rest"
        and ix: "k - ?l = Suc (Suc (k - length (emitted c2)))"
        by simp_all
      from Cons.IH [OF c2(2) Cons.prems(2) lo hi, of "i + 1"] obtain c' where
        "stage_loop net cons topic n (i + 1) rest c2 = Inl (type_error, c')" "gone c'"
        "emitted c' = emitted c2 @ take (k - length (emitted c2)) (stage_frames topic n (i + 1) rest)"
        by blast
      with c1 c2 ix show ?thesis by (simp add: Let_def)
    qed
  qed
qed

lemma live_new_controller: "live new_controller"
  by (simp add: live_def new_controller_def)


lemma try_body_completes:
  assumes "cancelled_at cons = None"
  shows "\<exists>c. try_body net cons topic new_controller = Inr c \<and> emitted c = all_frames topic
           \<and> closeRequested c \<and> received c @ queue c = emitted c
           \<and> state c = (if queue c = [] then Closed else Readable)"
proof -
  let ?sqs = "searchQueries topic"
  from assms have far: "\<And>k. cancel_before cons = Some k \<Longrightarrow> 17 < k"
    by (simp add: cancelled_at_def split: option.splits if_splits)
  then have "\<And>k. cancel_before cons = Some k
      \<Longrightarrow> k < length (emitted new_controller) \<or> length (emitted new_controller) + 2 * length ?sqs \<le> k"
    by (fastforce simp add: length_searchQueries new_controller_def)
  from stage_loop_live [OF live_new_controller this, where net = net and topic = topic
      and n = "length ?sqs" and i = 0] obtain c1 where
    c1: "stage_loop net cons topic (length ?sqs) 0 ?sqs new_controller = Inr c1" "live c1"
        "emitted c1 = stage_frames topic (length ?sqs) 0 ?sqs"
    by (auto simp add: new_controller_def)
  from far c1(3) have "cancel_before cons \<noteq> Some (length (emitted c1))"
    by (fastforce simp add: length_stage_frames length_searchQueries)
  from enqueue_live [OF c1(2) this] obtain c2 where
    c2: "enqueue cons CompleteData c1 = Inr c2" "live c2" "emitted c2 = emitted c1 @ [CompleteData]"
    by blast
  from far c1(3) c2(3) have "cancel_before cons \<noteq> Some (length (emitted c2))"
    by (fastforce simp add: length_stage_frames length_searchQueries)
  from close_live [OF c2(2) this] obtain c3 where
    "close cons c2 = Inr c3" "emitted c3 = emitted c2" "closeRequested c3"
    "received c3 @ queue c3 = emitted c3" "state c3 = (if queue c3 = [] then Closed else Readable)"
    by blast
  with c1 c2 show ?thesis by (simp add: try_body_def all_frames_def)
qed

lemma try_body_cancelled:
  assumes "cancelled_at cons = Some k"
  shows "\<exists>c. try_body net cons topic new_controller = Inl (type_error, c) \<and> gone c
           \<and> emitted c = take k (all_frames topic)"
proof -
  let ?sqs = "searchQueries topic"
  let ?fs = "stage_frames topic (length ?sqs) 0 ?sqs"
  from assms have k: "cancel_before cons = Some k" "k \<le> 17"
    by (simp_all add: cancelled_at_def split: option.splits if_splits)
  show ?thesis
  proof (cases "k < 16")
    case True
    then have "length (emitted new_controller) \<le> k"
      "k < length (emitted new_controller) + 2 * length ?sqs"
      by (simp_all add: new_controller_def length_searchQueries)
    from stage_loop_gone [OF live_new_controller k(1) this, where net = net and topic = topic
      and n = "length ?sqs" and i = 0]
    obtain c where "stage_loop net cons topic (length ?sqs) 0 ?sqs new_controller = Inl (type_error, c)"
      "gone c" "emitted c = take k ?fs"
      by (auto simp add: new_controller_def)
    with True show ?thesis
      by (simp add: try_body_def all_frames_def length_stage_frames length_searchQueries)
  next
    case False
    with k have "\<And>j. cancel_before cons = Some j
      \<Longrightarrow> j < length (emitted new_controller) \<or> length (emitted new_controller) + 2 * length ?sqs \<le> j"
      by (simp add: length_searchQueries new_controller_def)
    from stage_loop_live [OF live_new_controller this, where net = net and topic = topic
      and n = "length ?sqs" and i = 0] obtain c1 where
      c1: "stage_loop net cons topic (length ?sqs) 0 ?sqs new_controller = Inr c1" "live c1"
          "emitted c1 = ?fs"
      by (auto simp add: new_controller_def)
    have l1: "length (emitted c1) = 16"
      by (simp add: c1(3) length_stage_frames length_searchQueries)
    show ?thesis
    proof (cases "k = 16")
      case True
      with k l1 have "cancel_before cons = Some (length (emitted c1))" by simp
      from enqueue_gone [OF c1(2) this] obtain c where
        "enqueue cons CompleteData c1 = Inl (type_error, c)" "gone c" "emitted c = emitted c1"
        by blast
      with c1 True show ?thesis
        by (simp add: try_body_def all_frames_def length_stage_frames length_searchQueries)
    next
      case False
      with \<open>\<not> k < 16\<close> k have k17: "k = 17" by simp
      with k l1 have "cancel_before cons \<noteq> Some (length (emitted c1))" by simp
      from enqueue_live [OF c1(2) this] obtain c2 where
        c2: "enqueue cons CompleteData c1 = Inr c2" "live c2" "emitted c2 = emitted c1 @ [CompleteData]"
        by blast
      with k k17 l1 have "cancel_before cons = Some (length (emitted c2))" by simp
      from close_gone [OF c2(2) this] obtain c where
        "close cons c2 = Inl (type_error, c)" "gone c" "emitted c = emitted c2"
        by blast
      with c1 c2 k17 show ?thesis
        by (simp add: try_body_def all_frames_def length_stage_frames length_searchQueries)
    qed
  qed
qed

lemma controller_error_gone: "gone c \<Longrightarrow> controller_error e c = c"
  by (simp add: controller_error_def gone_def)

lemma start_completes:
  assumes "cancelled_at cons = None"
  shows "try_body net cons topic new_controller = Inr (start net cons topic)
         \<and> emitted (start net cons topic) = all_frames topic
         \<and> closeRequested (start net cons topic)
         \<and> received (start net cons topic) @ queue (start net cons topic) = all_frames topic
         \<and> state (start net cons topic) = (if queue (start net cons topic) = [] then Closed else Readable)"
proof -
  from try_body_completes [OF assms, of net topic] obtain c where
    c: "try_body net cons topic new_controller = Inr c" "emitted c = all_frames topic"
       "closeRequested c" "received c @ queue c = emitted c"
       "state c = (if queue c = [] then Closed else Readable)"
    by blast
  then have "start net cons topic = c" by (simp add: start_def)
  with c show ?thesis by simp
qed

lemma start_cancelled:
  assumes "cancelled_at cons = Some k"
  shows "try_body net cons topic new_controller = Inl (type_error, start net cons topic)
         \<and> gone (start net cons topic)
         \<and> emitted (start net cons topic) = take k (all_frames topic)"
proof -
  from try_body_cancelled [OF assms, of net topic] obtain c where
    c: "try_body net cons topic new_controller = Inl (type_error, c)" "gone c"
       "emitted c = take k (all_frames topic)"
    by blast
  then have "start net cons topic = c" by (simp add: start_def controller_error_gone)
  with c show ?thesis by simp
qed

lemma drain_closes:
  assumes "closeRequested c" and "received c @ queue c = emitted c"
    and "state c = (if queue c = [] then Closed else Readable)"
  shows "state (drain c) = Closed \<and> received (drain c) = emitted c \<and> queue (drain c) = []
         \<and> emitted (drain c) = emitted c"
  using assms by (simp add: drain_def read_chunks_state read_chunks_received read_chunks_queue)

lemma stage_loop_ignores_search:
  "stage_loop net1 cons topic n i sqs c = stage_loop net2 cons topic n i sqs c"
  by (induction sqs arbitrary: i c) (simp_all add: Let_def split: sum.splits)

lemma start_ignores_search: "start net1 cons topic = start net2 cons topic"
  by (simp add: start_def try_body_def stage_loop_ignores_search [of net1 _ _ _ _ _ _ net2])

lemma cancelled_at_patient: "cancelled_at (patient r) = None"
  by (simp add: cancelled_at_def patient_def)

lemma received_results_stage_frames:
  "received_results (stage_frames topic n i sqs @ [CompleteData]) = map (result_block topic) sqs"
  by (induction sqs arbitrary: i) simp_all

lemma event_types_stage_frames:
  "map event_type (stage_frames topic n i sqs) = concat (map (\<lambda>sq. [''progress'', ''result'']) sqs)"
  by (induction sqs arbitrary: i) simp_all

lemma no_failure_stage_frames: "filter is_failure (stage_frames topic n i sqs) = []"
  by (induction sqs arbitrary: i) (simp_all add: is_failure_def)

lemma filter_take_empty: "filter P xs = [] \<Longrightarrow> filter P (take k xs) = []"
  by (metis filter_empty_conv in_set_takeD)

lemma complete_not_in_stage_frames: "CompleteData \<notin> set (stage_frames topic n i sqs)"
  by (induction sqs arbitrary: i) simp_all

lemma complete_in_taken_frames:
  assumes "k \<le> 17"
  shows "(CompleteData \<in> set (take k (all_frames topic))) = (k = 17)"
proof (cases "k = 17")
  case True
  then show ?thesis by (simp add: all_frames_def length_stage_frames length_searchQueries)
next
  case False
  with assms have "k \<le> 16" by simp
  then have "take k (all_frames topic)
      = take k (stage_frames topic (length (searchQueries topic)) 0 (searchQueries topic))"
    by (simp add: all_frames_def length_stage_frames length_searchQueries)
  moreover have "CompleteData \<notin> set (take k (stage_frames topic (length (searchQueries topic)) 0
      (searchQueries topic)))"
    using complete_not_in_stage_frames in_set_takeD by fast
  ultimately show ?thesis using False by simp
qed

lemma no_failure_all_frames: "filter is_failure (all_frames topic) = []"
  by (simp add: all_frames_def no_failure_stage_frames is_failure_def)

lemma all_frames_8:
  "all_frames topic = stage_frames topic 8 0 (searchQueries topic) @ [CompleteData]"
  by (simp add: all_frames_def length_searchQueries)

lemma event_types_all_frames:
  "map event_type (all_frames topic)
     = [''progress'', ''result'', ''progress'', ''result'', ''progress'', ''result'',
        ''progress'', ''result'', ''progress'', ''result'', ''progress'', ''result'',
        ''progress'', ''result'', ''progress'', ''result'', ''complete'']"
proof -
  have types: "map event_type (stage_frames topic 8 0 (searchQueries topic))
      = concat (map (\<lambda>sq. [''progress'', ''result'']) (searchQueries topic))"
    by (rule event_types_stage_frames)
  have "concat (map (\<lambda>sq. [''progress'', ''result'']) (searchQueries topic))
      = [''progress'', ''result'', ''progress'', ''result'', ''progress'', ''result'',
          ''progress'', ''result'', ''progress'', ''result'', ''progress'', ''result'',
          ''progress'', ''result'', ''progress'', ''result'']"
    by (simp add: searchQueries_def)
  with types show ?thesis by (simp add: all_frames_8)
qed

lemma received_results_all_frames:
  "received_results (all_frames topic) = map (result_block topic) (searchQueries topic)"
  by (simp add: all_frames_def received_results_stage_frames)

lemma start_general:
  "filter is_failure (emitted (start net cons topic)) = []
   \<and> prefix (received (start net cons topic)) (emitted (start net cons topic))
   \<and> (state (start net cons topic) = Readable \<or> state (start net cons topic) = Closed)"
proof (cases "cancelled_at cons")
  case None
  note full = start_completes [OF this, of net topic]
  then have "prefix (received (start net cons topic)) (emitted (start net cons topic))"
    by (metis prefixI)
  with full show ?thesis by (auto simp add: no_failure_all_frames)
next
  case (Some k)
  note cut = start_cancelled [OF this, of net topic]
  then have "gone (start net cons topic)" by simp
  then have p: "prefix (received (start net cons topic)) (emitted (start net cons topic))"
    and s: "state (start net cons topic) = Closed"
    by (simp_all add: gone_def)
  from cut have "filter is_failure (emitted (start net cons topic)) = []"
    by (simp add: no_failure_all_frames filter_take_empty)
  with p s show ?thesis by blast
qed

lemma start_patient:
  "try_body net (patient r) topic new_controller = Inr (start net (patient r) topic)
   \<and> emitted (start net (patient r) topic) = all_frames topic
   \<and> closeRequested (start net (patient r) topic)
   \<and> received (start net (patient r) topic) @ queue (start net (patient r) topic) = all_frames topic
   \<and> state (start net (patient r) topic)
       = (if queue (start net (patient r) topic) = [] then Closed else Readable)"
  by (rule start_completes) (rule cancelled_at_patient)

text \<open>
  Claim C2. A run whose consumer does not cancel, whatever it reads and when, raises no
  exception and emits, whatever the topic (the empty one included) and whatever the
  search call does, the frames of the eight stages in catalogue order, each stage's
  progress frame directly followed by its result frame, then one complete frame, and
  requests the close of the stream: the stream is closed as soon as the consumer has read
  the last frame, and the consumer has then read exactly the frames emitted. So there
  are exactly eight result frames, the results the client collects are the eight blocks
  in catalogue order, nothing follows the complete frame, and the result of stage \<open>i\<close>
  stands between the progress frames of stages \<open>i\<close> and \<open>i + 1\<close>.
\<close>

theorem pipeline_success_events:
  "try_body net (patient r) topic new_controller = Inr (start net (patient r) topic)
   \<and> emitted (start net (patient r) topic)
       = stage_frames topic 8 0 (searchQueries topic) @ [CompleteData]
   \<and> closeRequested (start net (patient r) topic)
   \<and> state (start net (patient r) topic)
       = (if queue (start net (patient r) topic) = [] then Closed else Readable)
   \<and> state (drain (start net (patient r) topic)) = Closed
   \<and> received (drain (start net (patient r) topic)) = emitted (start net (patient r) topic)
   \<and> length (searchQueries topic) = 8
   \<and> received_results (emitted (start net (patient r) topic))
       = map (result_block topic) (searchQueries topic)
   \<and> map event_type (emitted (start net (patient r) topic))
       = [''progress'', ''result'', ''progress'', ''result'', ''progress'', ''result'',
          ''progress'', ''result'', ''progress'', ''result'', ''progress'', ''result'',
          ''progress'', ''result'', ''progress'', ''result'', ''complete'']"
proof -
  let ?c = "start net (patient r) topic"
  note run = start_patient [of net r topic]
  from run have em: "emitted ?c = stage_frames topic 8 0 (searchQueries topic) @ [CompleteData]"
    by (simp add: all_frames_8)
  from run have "closeRequested ?c" "received ?c @ queue ?c = emitted ?c"
    "state ?c = (if queue ?c = [] then Closed else Readable)"
    by simp_all
  from drain_closes [OF this] have dr: "state (drain ?c) = Closed" "received (drain ?c) = emitted ?c"
    by simp_all
  have ty: "map event_type (emitted ?c)
       = [''progress'', ''result'', ''progress'', ''result'', ''progress'', ''result'',
          ''progress'', ''result'', ''progress'', ''result'', ''progress'', ''result'',
          ''progress'', ''result'', ''progress'', ''result'', ''complete'']"
    using run by (simp add: event_types_all_frames)
  have rr: "received_results (emitted ?c) = map (result_block topic) (searchQueries topic)"
    using run by (simp add: received_results_all_frames)
  from run have a: "try_body net (patient r) topic new_controller = Inr ?c"
    and b: "closeRequested ?c"
    and c: "state ?c = (if queue ?c = [] then Closed else Readable)"
    by simp_all
  show ?thesis
    using a em b c dr length_searchQueries [of topic] rr ty by blast
qed

text \<open>
  Claim C7. The run does not depend on the outcome of the search call: with the same
  topic and the same consumer, any two environments of the search call give the same
  stream, hence the same result blocks, for a topic given as text and for any topic of a
  request body; in a run that the consumer does not cancel, the blocks emitted, and the
  blocks that the consumer has read at the end, are the function of the topic alone that
  the route writes down.
\<close>

theorem result_blocks_independent_of_retrieval:
  "start net1 cons topic = start net2 cons topic
   \<and> start_topic net1 cons t = start_topic net2 cons t
   \<and> received_results (emitted (start net1 cons topic))
       = received_results (emitted (start net2 cons topic))
   \<and> received_results (emitted (start net1 (patient r) topic))
       = map (\<lambda>sq. \<lparr>title = perspective sq,
                     content = synthesizeContent topic (query sq),
                     source = ''Deep Research Analysis - '' @ perspective sq\<rparr>)
            (searchQueries topic)
   \<and> received_results (received (drain (start net1 (patient r) topic)))
       = map (\<lambda>sq. \<lparr>title = perspective sq,
                     content = synthesizeContent topic (query sq),
                     source = ''Deep Research Analysis - '' @ perspective sq\<rparr>)
            (searchQueries topic)"
proof -
  let ?c = "start net1 (patient r) topic"
  have same: "start net1 cons topic = start net2 cons topic"
    by (rule start_ignores_search)
  have same_t: "start_topic net1 cons t = start_topic net2 cons t"
    by (simp add: start_topic_def start_ignores_search [of net1 _ _ net2] split: sum.splits)
  have blocks: "map (result_block topic) (searchQueries topic)
      = map (\<lambda>sq. \<lparr>title = perspective sq,
                     content = synthesizeContent topic (query sq),
                     source = ''Deep Research Analysis - '' @ perspective sq\<rparr>)
            (searchQueries topic)"
    by (simp add: result_block_def)
  note run = start_patient [of net1 r topic]
  from run have em: "received_results (emitted ?c) = map (result_block topic) (searchQueries topic)"
    by (simp add: all_frames_def received_results_stage_frames)
  from run have "closeRequested ?c" "received ?c @ queue ?c = emitted ?c"
    "state ?c = (if queue ?c = [] then Closed else Readable)"
    by simp_all
  from drain_closes [OF this] have "received (drain ?c) = emitted ?c" by simp
  with same same_t em blocks show ?thesis by simp
qed

text \<open>
  Claim C3, as stated, fails. The consumer cancels the stream after the first stage: the
  third call to \<^verbatim>\<open>enqueue\<close> throws, the \<^verbatim>\<open>catch\<close> calls \<^verbatim>\<open>controller.error\<close>, which
  leaves the closed stream as it is. The run has emitted a progress and a result frame;
  no frame of type \<^verbatim>\<open>failure\<close> is emitted, so the stream does not end with one. The
  same holds when the topic of the request cannot be rendered as text (an object with a
  field \<^verbatim>\<open>toString\<close>): the stream ends in the errored state without any frame.
\<close>

theorem cancelled_stream_has_no_failure_frame:
  "try_body (\<lambda>q. FetchThrows ''offline'') (leaves_before 2 (\<lambda>n. 1)) ''ab'' new_controller
     = Inl (type_error, start (\<lambda>q. FetchThrows ''offline'') (leaves_before 2 (\<lambda>n. 1)) ''ab'')
   \<and> state (start (\<lambda>q. FetchThrows ''offline'') (leaves_before 2 (\<lambda>n. 1)) ''ab'') = Closed
   \<and> map event_type (emitted (start (\<lambda>q. FetchThrows ''offline'') (leaves_before 2 (\<lambda>n. 1)) ''ab''))
     = [''progress'', ''result'']
   \<and> \<not> ends_with_one_failure
         (emitted (start (\<lambda>q. FetchThrows ''offline'') (leaves_before 2 (\<lambda>n. 1)) ''ab''))
   \<and> state (start_topic (\<lambda>q. FetchThrows ''offline'') (patient (\<lambda>n. 1))
         (Some (JObject [(''toString'', JNull)])))
     = Errored type_error
   \<and> emitted (start_topic (\<lambda>q. FetchThrows ''offline'') (patient (\<lambda>n. 1))
         (Some (JObject [(''toString'', JNull)])))
     = []
   \<and> \<not> ends_with_one_failure
         (emitted (start_topic (\<lambda>q. FetchThrows ''offline'') (patient (\<lambda>n. 1))
            (Some (JObject [(''toString'', JNull)]))))"
proof -
  let ?c = "start (\<lambda>q. FetchThrows ''offline'') (leaves_before 2 (\<lambda>n. 1)) ''ab''"
  let ?d = "start_topic (\<lambda>q. FetchThrows ''offline'') (patient (\<lambda>n. 1))
         (Some (JObject [(''toString'', JNull)]))"
  have "cancelled_at (leaves_before 2 (\<lambda>n. 1)) = Some 2"
    by (simp add: cancelled_at_def leaves_before_def)
  note run = start_cancelled [OF this, of "\<lambda>q. FetchThrows ''offline''" "''ab''"]
  from run have a: "try_body (\<lambda>q. FetchThrows ''offline'') (leaves_before 2 (\<lambda>n. 1)) ''ab''
      new_controller = Inl (type_error, ?c)"
    by simp
  from run have b: "state ?c = Closed" by (simp add: gone_def)
  from run have "emitted ?c = take 2 (all_frames ''ab'')" by simp
  then have two: "emitted ?c
      = [ProgressData (progress_message (hd (searchQueries ''ab'')) 0 8),
         ResultData (result_block ''ab'' (hd (searchQueries ''ab'')))]"
    by (simp add: all_frames_8 searchQueries_def)
  have c: "map event_type (emitted ?c) = [''progress'', ''result'']"
    unfolding two by simp
  have d: "\<not> ends_with_one_failure (emitted ?c)"
    unfolding two by (simp add: ends_with_one_failure_def is_failure_def)
  have e: "state ?d = Errored type_error" "emitted ?d = []"
    by (simp_all add: start_topic_def template_text_def controller_error_def new_controller_def)
  then have f: "\<not> ends_with_one_failure (emitted ?d)"
    by (simp add: ends_with_one_failure_def)
  from a b c d e f show ?thesis by blast
qed

text \<open>
  Claim C3, amended. No run emits a frame of type \<^verbatim>\<open>failure\<close>, and what the consumer
  has read is an initial part of what was emitted. For a topic that is rendered as text,
  a call on the controller throws if and only if the consumer has cancelled the stream
  before it, say before the call number \<open>k\<close>: then the stream is closed already and its
  queue dropped, \<^verbatim>\<open>controller.error\<close> in the \<^verbatim>\<open>catch\<close> leaves it so, the frames
  emitted are the first \<open>k\<close> frames of the full run, and the complete frame is among them
  only if the call that threw is the one to \<^verbatim>\<open>close\<close>. Without cancellation no
  exception occurs, all 17 frames are emitted, the last one the complete frame, and the
  stream is closed once read. The stream is in the errored state only when the topic
  cannot be rendered: then with the exception as the reason, and without any frame.
\<close>

theorem stream_exception_outcomes:
  "(case cancelled_at cons of
      None \<Rightarrow>
        try_body net cons topic new_controller = Inr (start net cons topic)
        \<and> emitted (start net cons topic) = all_frames topic
        \<and> last (emitted (start net cons topic)) = CompleteData
        \<and> state (drain (start net cons topic)) = Closed
        \<and> received (drain (start net cons topic)) = all_frames topic
    | Some k \<Rightarrow>
        try_body net cons topic new_controller = Inl (type_error, start net cons topic)
        \<and> state (start net cons topic) = Closed
        \<and> queue (start net cons topic) = []
        \<and> emitted (start net cons topic) = take k (all_frames topic)
        \<and> (CompleteData \<in> set (emitted (start net cons topic))) = (k = 17))
   \<and> filter is_failure (emitted (start_topic net cons t)) = []
   \<and> prefix (received (start_topic net cons t)) (emitted (start_topic net cons t))
   \<and> (case template_text t of
        Inl e \<Rightarrow>
          state (start_topic net cons t) = Errored e \<and> emitted (start_topic net cons t) = []
      | Inr text \<Rightarrow>
          start_topic net cons t = start net cons text
          \<and> (state (start net cons text) = Readable \<or> state (start net cons text) = Closed))"
proof -
  let ?c = "start net cons topic"
  have run: "(case cancelled_at cons of
      None \<Rightarrow>
        try_body net cons topic new_controller = Inr ?c
        \<and> emitted ?c = all_frames topic
        \<and> last (emitted ?c) = CompleteData
        \<and> state (drain ?c) = Closed
        \<and> received (drain ?c) = all_frames topic
    | Some k \<Rightarrow>
        try_body net cons topic new_controller = Inl (type_error, ?c)
        \<and> state ?c = Closed
        \<and> queue ?c = []
        \<and> emitted ?c = take k (all_frames topic)
        \<and> (CompleteData \<in> set (emitted ?c)) = (k = 17))"
  proof (cases "cancelled_at cons")
    case None
    note full = start_completes [OF this, of net topic]
    from full have "closeRequested ?c" "received ?c @ queue ?c = emitted ?c"
      "state ?c = (if queue ?c = [] then Closed else Readable)"
      by simp_all
    from drain_closes [OF this] full
    have "state (drain ?c) = Closed" "received (drain ?c) = all_frames topic"
      by simp_all
    moreover have "last (all_frames topic) = CompleteData" by (simp add: all_frames_def)
    ultimately show ?thesis using None full by simp
  next
    case (Some k)
    then have "k \<le> 17" by (simp add: cancelled_at_def split: option.splits if_splits)
    from start_cancelled [OF Some, of net topic] complete_in_taken_frames [OF this, of topic]
    show ?thesis using Some by (simp add: gone_def)
  qed
  have rest: "filter is_failure (emitted (start_topic net cons t)) = []
   \<and> prefix (received (start_topic net cons t)) (emitted (start_topic net cons t))
   \<and> (case template_text t of
        Inl e \<Rightarrow>
          state (start_topic net cons t) = Errored e \<and> emitted (start_topic net cons t) = []
      | Inr text \<Rightarrow>
          start_topic net cons t = start net cons text
          \<and> (state (start net cons text) = Readable \<or> state (start net cons text) = Closed))"
  proof (cases "template_text t")
    case (Inl e)
    then show ?thesis by (simp add: start_topic_def controller_error_def new_controller_def)
  next
    case (Inr rendered)
    then have "start_topic net cons t = start net cons rendered" by (simp add: start_topic_def)
    with Inr start_general [of net cons rendered] show ?thesis by simp
  qed
  from run rest show ?thesis by (rule conjI)
qed


section \<open>Input handling of the deep-search route\<close>





lemma destructure_topic_throws: "(\<exists>e. destructure_topic v = Inl e) = (v = JNull)"
  by (cases v) (simp_all add: destructure_topic_def)







section \<open>The search call\<close>

lemma map_nth_min_take: "map (\<lambda>i. f (xs ! i)) [0 ..< min (length xs) n] = map f (take n xs)"
  by (rule nth_equalityI) simp_all

text \<open>
  Claim C10. \<^verbatim>\<open>fetchSearchResults\<close> returns an array of at most three entries for
  every query and every behaviour of the request. An exception of the request or of
  reading the body, and a response that is not OK, give the empty array; where there are
  no snippet matches every entry gets the empty snippet.
\<close>

theorem fetchSearchResults_total_bounded:
  "length (fetchSearchResults net q) \<le> 3
   \<and> fetchSearchResults (\<lambda>u. FetchThrows e) q = []
   \<and> fetchSearchResults (\<lambda>u. Response False b) q = []
   \<and> fetchSearchResults (\<lambda>u. Response True (TextThrows e)) q = []
   \<and> collect_hits titleMatches [] =
       map (\<lambda>m. \<lparr>hit_title = clean m, hit_snippet = []\<rparr>) (take 3 titleMatches)"
proof -
  have len: "length (collect_hits ts ss) \<le> 3" for ts ss
    by (simp add: collect_hits_def)
  have "length (fetchSearchResults net q) \<le> 3"
    by (simp add: fetchSearchResults_def fetch_try_def Let_def len
        split: http_outcome.splits body_outcome.splits)
  moreover have "collect_hits titleMatches [] =
       map (\<lambda>m. \<lparr>hit_title = clean m, hit_snippet = []\<rparr>) (take 3 titleMatches)"
    using map_nth_min_take [of "\<lambda>m. \<lparr>hit_title = clean m, hit_snippet = []\<rparr>" titleMatches 3]
    by (simp add: collect_hits_def element_at_def)
  ultimately show ?thesis
    by (simp add: fetchSearchResults_def fetch_try_def)
qed

lemma fetchSearchResults_example:
  "fetchSearchResults
     (\<lambda>q. Response True (Text (
        ''<a rel=x '' @ class_attr ''result__a'' @ '' href=y> One </a>''
        @ ''<a '' @ class_attr ''result__snippet'' @ ''>sn<b>i</b>p</a>''
        @ ''<a '' @ class_attr ''result__snippet'' @ ''>first</a>''
        @ ''<a '' @ class_attr ''result__a'' @ ''>Two</a>''
        @ ''<a '' @ class_attr ''result__a'' @ ''>Three</a>''
        @ ''<a '' @ class_attr ''result__a'' @ ''>Four</a>''))) ''q''
   = [\<lparr>hit_title = ''One'', hit_snippet = ''first''\<rparr>,
      \<lparr>hit_title = ''Two'', hit_snippet = []\<rparr>,
      \<lparr>hit_title = ''Three'', hit_snippet = []\<rparr>]"
  by code_simp


section \<open>The content synthesizer\<close>

text \<open>
  Claim C4 does not hold of the code: the stage is recognised by searching the whole
  query, which starts with the topic, for the first word of each phrase, and the first
  phrase found wins. For the topic \<^verbatim>\<open>future cities\<close> the stage
  \<^verbatim>\<open>Best Practices\<close> (index 6) is given the template of \<^verbatim>\<open>future\<close> (index 5).
\<close>

theorem synthesizeContent_topic_keyword_mismatch:
  "perspective (searchQueries ''future cities'' ! 6) = ''Best Practices''
   \<and> query (searchQueries ''future cities'' ! 6) = ''future cities best practices''
   \<and> synthesizeContent ''future cities'' (query (searchQueries ''future cities'' ! 6))
       = template_future ''future cities''
   \<and> template_future ''future cities'' \<noteq> template_best_practices ''future cities''"
proof -
  have k: "select_key ''future cities best practices'' = Future"
    by (simp add: select_key_def findIndex_def queries_def first_word_def element_at_def
        object_keys_def)
  have q: "query (searchQueries ''future cities'' ! 6) = ''future cities best practices''"
    by (simp add: searchQueries_def)
  have d: "template_future ''future cities'' \<noteq> template_best_practices ''future cities''"
    by (simp add: template_future_def template_best_practices_def)
  show ?thesis using d
    by (simp add: q k synthesizeContent_def perspectives_def) (simp add: searchQueries_def)
qed


lemma startsWith_before_separator:
  "c \<notin> set p \<Longrightarrow> startsWith (a @ c # b) p = startsWith a p"
  by (induction a p rule: startsWith.induct) auto

lemma js_includes_across_separator:
  "c \<notin> set p \<Longrightarrow> p \<noteq> [] \<Longrightarrow>
     js_includes (a @ c # b) p = (js_includes a p \<or> js_includes b p)"
proof (induction a)
  case Nil
  then show ?case by (cases p) auto
next
  case (Cons y ys)
  have "startsWith ((y # ys) @ c # b) p = startsWith (y # ys) p"
    using Cons.prems(1) by (rule startsWith_before_separator)
  with Cons show ?case by auto
qed

text \<open>
  Where the code does pick the template of the stage: for a topic that contains none of
  the eight first words (\<^verbatim>\<open>overview\<close>, \<^verbatim>\<open>historical\<close>, \<^verbatim>\<open>current\<close>,
  \<^verbatim>\<open>practical\<close>, \<^verbatim>\<open>challenges\<close>, \<^verbatim>\<open>future\<close>, \<^verbatim>\<open>best\<close>, \<^verbatim>\<open>case\<close>),
  the eight stages get the eight templates in the order of the keys.
\<close>

lemma synthesizeContent_keyword_free_topic:
  assumes "list_all (\<lambda>q. \<not> js_includes topic (first_word q)) queries"
  shows "map (\<lambda>sq. synthesizeContent topic (query sq)) (searchQueries topic)
           = map (perspectives topic) object_keys"
proof -
  from assms have free:
    "\<not> js_includes topic ''overview''" "\<not> js_includes topic ''historical''"
    "\<not> js_includes topic ''current''" "\<not> js_includes topic ''practical''"
    "\<not> js_includes topic ''challenges''" "\<not> js_includes topic ''future''"
    "\<not> js_includes topic ''best''" "\<not> js_includes topic ''case''"
    by (simp_all add: queries_def first_word_def)
  have keys: "map (\<lambda>sq. select_key (query sq)) (searchQueries topic) = object_keys"
    using free
    by (simp add: searchQueries_def select_key_def findIndex_def queries_def first_word_def
        js_includes_across_separator element_at_def object_keys_def)
  have "map (\<lambda>sq. synthesizeContent topic (query sq)) (searchQueries topic)
      = map (perspectives topic) (map (\<lambda>sq. select_key (query sq)) (searchQueries topic))"
    by (simp add: synthesizeContent_def)
  then show ?thesis by (simp only: keys)
qed

lemma renewable_energy_keyword_free:
  "list_all (\<lambda>q. \<not> js_includes ''Renewable Energy'' (first_word q)) queries"
  by (simp add: queries_def first_word_def)


section \<open>The suggested file name\<close>

lemma lower_char_range:
  "lower_char c \<in> set lower_letters \<or> (lower_char c = c \<and> c \<notin> set upper_letters)"
proof (cases "map_of (zip upper_letters lower_letters) c")
  case None
  have "length upper_letters = length lower_letters"
    by (simp add: upper_letters_def lower_letters_def)
  with None have "c \<notin> set upper_letters"
    by (simp add: map_of_zip_is_None)
  with None show ?thesis by (simp add: lower_char_def)
next
  case (Some d)
  then have "(c, d) \<in> set (zip upper_letters lower_letters)"
    by (rule map_of_SomeD)
  then have "d \<in> set lower_letters"
    by (rule set_zip_rightD)
  with Some show ?thesis by (simp add: lower_char_def)
qed

lemma final_char_in_alphabet:
  "(if is_alnum c then lower_char c else CHR ''_'') \<in> set (lower_letters @ digit_chars @ ''_.'')"
proof (cases "is_alnum c")
  case True
  then have "c \<in> set lower_letters \<or> c \<in> set upper_letters \<or> c \<in> set digit_chars"
    by (simp add: is_alnum_def)
  with lower_char_range [of c] have "lower_char c \<in> set lower_letters \<or> lower_char c \<in> set digit_chars"
    by auto
  with True show ?thesis by auto
next
  case False
  then show ?thesis by simp
qed
lemma lower_char_replaced:
  "lower_char (if is_alnum c then c else CHR ''_'') = (if is_alnum c then lower_char c else CHR ''_'')"
  by (simp add: lower_char_def lower_letters_def upper_letters_def)

lemma report_filename_map:
  "report_filename topic
     = map (\<lambda>c. if is_alnum c then lower_char c else CHR ''_'') topic @ ''_report.pdf''"
  by (simp add: report_filename_def toLowerCase_def replace_non_alnum_def lower_char_replaced)

lemma map_non_alnum:
  "list_all (\<lambda>c. \<not> is_alnum c) topic \<Longrightarrow>
     map (\<lambda>c. if is_alnum c then lower_char c else CHR ''_'') topic
       = replicate (length topic) CHR ''_''"
  by (induction topic) simp_all

text \<open>
  Claim C5, as stated, fails: a run of two spaces becomes two separators, not one, and
  topics of two and of three punctuation characters get different names, so there is no
  one fallback name.
\<close>

theorem report_filename_keeps_run_length:
  "report_filename ''a  b'' = ''a__b_report.pdf''
   \<and> spec_suggestedFilename ''a  b'' = ''a_b_report.pdf''
   \<and> report_filename ''a  b'' \<noteq> spec_suggestedFilename ''a  b''
   \<and> report_filename ''!!!'' = ''____report.pdf''
   \<and> report_filename ''!!'' = ''___report.pdf''
   \<and> report_filename ''!!!'' \<noteq> report_filename ''!!''"
  by (simp add: report_filename_def spec_suggestedFilename_def replace_non_alnum_def
      toLowerCase_def is_alnum_def lower_char_def lower_letters_def upper_letters_def
      digit_chars_def)

text \<open>
  Claim C5, amended. The name is the topic with every character outside
  \<^verbatim>\<open>[a-zA-Z0-9]\<close> replaced, one for one, by an underscore and every letter in lower
  case, followed by \<^verbatim>\<open>_report.pdf\<close>. It is a function of the topic, as long as the
  topic plus 11 characters, never empty, and made of lower-case letters, digits,
  underscores and the one full stop of the suffix. For a topic of \<open>n\<close> characters none
  of which is alphanumeric it is \<open>n\<close> underscores and the suffix.
\<close>

theorem report_filename_shape:
  "report_filename topic
     = map (\<lambda>c. if is_alnum c then lower_char c else CHR ''_'') topic @ ''_report.pdf''
   \<and> length (report_filename topic) = length topic + 11
   \<and> report_filename topic \<noteq> []
   \<and> set (report_filename topic) \<subseteq> set (lower_letters @ digit_chars @ ''_.'')
   \<and> (list_all (\<lambda>c. \<not> is_alnum c) topic \<longrightarrow>
        report_filename topic = replicate (length topic) CHR ''_'' @ ''_report.pdf'')"
proof -
  define S where "S = set (lower_letters @ digit_chars @ ''_.'')"
  have suffix: "set ''_report.pdf'' \<subseteq> S"
    by (simp add: S_def lower_letters_def)
  have "(\<lambda>c. if is_alnum c then lower_char c else CHR ''_'') ` set topic \<subseteq> S"
    unfolding S_def by (rule image_subsetI) (rule final_char_in_alphabet)
  with suffix have "set (report_filename topic) \<subseteq> S"
    by (simp add: report_filename_map)
  then show ?thesis
    unfolding S_def by (simp add: report_filename_map map_non_alnum del: set_append)
qed

theorem report_filename_shape_witness:
  "list_all (\<lambda>c. \<not> is_alnum c) ''!!!''
   \<and> report_filename ''!!!'' = ''____report.pdf''
   \<and> length (report_filename ''!!!'') = 14"
proof -
  have p: "list_all (\<lambda>c. \<not> is_alnum c) ''!!!''"
    by (simp add: is_alnum_def lower_letters_def upper_letters_def digit_chars_def)
  with report_filename_shape [of "''!!!''"] show ?thesis
    by (simp add: eval_nat_numeral)
qed


section \<open>The layout: what is drawn where\<close>

lemma draw_fields [simp]:
  "numberOfPages (draw d st) = numberOfPages st"
  "current (draw d st) = current st"
  "yPosition (draw d st) = yPosition st"
  "drawn (draw d st) = drawn st @ [(current st, d)]"
  by (simp_all add: draw_def)

lemma advance_fields [simp]:
  "numberOfPages (advance dy st) = numberOfPages st"
  "current (advance dy st) = current st"
  "yPosition (advance dy st) = yPosition st + dy"
  "drawn (advance dy st) = drawn st"
  by (simp_all add: advance_def)

lemma addPage_fields [simp]:
  "numberOfPages (addPage st) = numberOfPages st + 1"
  "current (addPage st) = numberOfPages st + 1"
  "yPosition (addPage st) = yPosition st"
  "drawn (addPage st) = drawn st"
  by (simp_all add: addPage_def)

lemma check_drawn [simp]: "drawn (snd (checkAndAddPage env r st)) = drawn st"
  by (simp add: checkAndAddPage_def)

lemma check_pages: "numberOfPages st \<le> numberOfPages (snd (checkAndAddPage env r st))"
  by (simp add: checkAndAddPage_def)

lemma extends_by_refl: "extends_by Q st st"
  by (simp add: extends_by_def)

lemma extends_byI: "drawn st' = drawn st @ new \<Longrightarrow> list_all Q new \<Longrightarrow> extends_by Q st st'"
  by (simp add: extends_by_def)

lemma extends_byD: "extends_by Q st st' \<Longrightarrow> \<exists>new. drawn st' = drawn st @ new \<and> list_all Q new"
  unfolding extends_by_def by (metis append_take_drop_id)

lemma extends_by_trans:
  assumes "extends_by Q st st'" and "extends_by Q st' st''"
  shows "extends_by Q st st''"
proof -
  from assms(1) obtain n1 where n1: "drawn st' = drawn st @ n1" "list_all Q n1"
    using extends_byD by blast
  from assms(2) obtain n2 where n2: "drawn st'' = drawn st' @ n2" "list_all Q n2"
    using extends_byD by blast
  from n1 n2 have "drawn st'' = drawn st @ (n1 @ n2)" and "list_all Q (n1 @ n2)"
    by simp_all
  then show ?thesis by (rule extends_byI)
qed

lemma extends_by_same_drawn: "drawn st' = drawn st \<Longrightarrow> extends_by Q st st'"
  by (simp add: extends_by_def)

lemma extends_by_draw: "Q (current st, d) \<Longrightarrow> extends_by Q st (draw d st)"
  by (rule extends_byI [of _ _ "[(current st, d)]"]) simp_all

lemma extends_by_mono:
  "extends_by Q st st' \<Longrightarrow> (\<And>e. Q e \<Longrightarrow> R e) \<Longrightarrow> extends_by R st st'"
  unfolding extends_by_def list_all_iff by blast

text \<open>One checked line: the check, the text at the cursor, the advance.\<close>

lemma checked_line:
  assumes ok: "cursor_ok st"
    and r: "0 \<le> dy" "dy \<le> r" "r \<le> margin"
    and st1: "st1 = snd (checkAndAddPage env r st)"
    and d: "op_y d = yPosition st1" "\<not> is_footer env d"
  shows "cursor_ok (advance dy (draw d st1))"
    and "drawn (advance dy (draw d st1)) = drawn st @ [(current st1, d)]"
    and "body_op env (current st1, d)"
    and "3 * margin \<le> pageHeight env
          \<longrightarrow> yPosition (advance dy (draw d st1)) \<le> pageHeight env - margin"
    and "numberOfPages st \<le> numberOfPages (advance dy (draw d st1))"
proof -
  have cur: "2 \<le> current st1" "current st1 = numberOfPages st1" and lo: "margin \<le> yPosition st1"
    using ok r unfolding st1 cursor_ok_def checkAndAddPage_def margin_def
    by (auto split: if_splits)
  have hi: "yPosition st1 + r \<le> pageHeight env - margin" if "3 * margin \<le> pageHeight env"
    using that r unfolding st1 checkAndAddPage_def margin_def
    by (auto split: if_splits)
  show "cursor_ok (advance dy (draw d st1))"
    using cur lo r by (simp add: cursor_ok_def)
  show "body_op env (current st1, d)"
    using cur lo hi r d by (auto simp add: body_op_def in_printable_area_def)
  show "drawn (advance dy (draw d st1)) = drawn st @ [(current st1, d)]"
    by (simp add: st1)
  show "3 * margin \<le> pageHeight env
          \<longrightarrow> yPosition (advance dy (draw d st1)) \<le> pageHeight env - margin"
    using hi r by auto
  show "numberOfPages st \<le> numberOfPages (advance dy (draw d st1))"
    by (simp add: st1 check_pages)
qed

lemma toc_entries_ok:
  assumes "cursor_ok st"
  shows "cursor_ok (toc_entries env index results st)
       \<and> extends_by (body_op env) st (toc_entries env index results st)
       \<and> numberOfPages st \<le> numberOfPages (toc_entries env index results st)
       \<and> (3 * margin \<le> pageHeight env \<and> yPosition st \<le> pageHeight env - margin
            \<longrightarrow> yPosition (toc_entries env index results st) \<le> pageHeight env - margin)"
  using assms
proof (induction results arbitrary: index st)
  case Nil
  then show ?case by (simp add: extends_by_refl)
next
  case (Cons result rest)
  define st1 where "st1 = snd (checkAndAddPage env 10 st)"
  define d where "d = TextWithLink (show_nat (index + 1) @ ''. '' @ title result)
                        (margin + 5) (yPosition st1) (index + 3)"
  define st3 where "st3 = advance 7 (draw d st1)"
  have step: "toc_entries env index (result # rest) st = toc_entries env (index + 1) rest st3"
    by (simp add: st1_def d_def st3_def Let_def)
  have a: "cursor_ok st3" "drawn st3 = drawn st @ [(current st1, d)]"
    "body_op env (current st1, d)"
    "3 * margin \<le> pageHeight env \<longrightarrow> yPosition st3 \<le> pageHeight env - margin"
    "numberOfPages st \<le> numberOfPages st3"
    unfolding st3_def
    using checked_line [OF Cons.prems, of 7 10 st1 env d]
    by (simp_all add: st1_def d_def margin_def)
  from a(2,3) have e: "extends_by (body_op env) st st3"
    by (intro extends_byI [of _ _ "[(current st1, d)]"]) simp_all
  from Cons.IH [OF a(1), of "index + 1"] a e show ?case
    unfolding step by (auto intro: extends_by_trans)
qed

lemma title_lines_ok:
  assumes "cursor_ok st"
  shows "cursor_ok (title_lines env ls st)
       \<and> extends_by (section_op env) st (title_lines env ls st)
       \<and> numberOfPages st \<le> numberOfPages (title_lines env ls st)"
  using assms
proof (induction ls arbitrary: st)
  case Nil
  then show ?case by (simp add: extends_by_refl)
next
  case (Cons line rest)
  define st1 where "st1 = snd (checkAndAddPage env 12 st)"
  define d where "d = TextAt line margin (yPosition st1)"
  define st3 where "st3 = advance 10 (draw d st1)"
  have step: "title_lines env (line # rest) st = title_lines env rest st3"
    by (simp add: st1_def st3_def d_def Let_def)
  have a: "cursor_ok st3" "drawn st3 = drawn st @ [(current st1, d)]"
    "body_op env (current st1, d)" "numberOfPages st \<le> numberOfPages st3"
    unfolding st3_def
    using checked_line [OF Cons.prems, of 10 12 st1 env d]
    by (simp_all add: st1_def d_def margin_def)
  from a(2,3) have e: "extends_by (section_op env) st st3"
    by (intro extends_byI [of _ _ "[(current st1, d)]"]) (simp_all add: section_op_def d_def)
  from Cons.IH [OF a(1)] a e show ?case
    unfolding step by (auto intro: extends_by_trans)
qed

lemma content_lines_ok:
  assumes "cursor_ok st"
  shows "cursor_ok (content_lines env ls st)
       \<and> extends_by (section_op env) st (content_lines env ls st)
       \<and> numberOfPages st \<le> numberOfPages (content_lines env ls st)"
  using assms
proof (induction ls arbitrary: st)
  case Nil
  then show ?case by (simp add: extends_by_refl)
next
  case (Cons line rest)
  define st1 where "st1 = snd (checkAndAddPage env 8 st)"
  define d where "d = TextAt line margin (yPosition st1)"
  define st3 where "st3 = advance 6 (draw d st1)"
  have step: "content_lines env (line # rest) st = content_lines env rest st3"
    by (simp add: st1_def st3_def d_def Let_def)
  have a: "cursor_ok st3" "drawn st3 = drawn st @ [(current st1, d)]"
    "body_op env (current st1, d)" "numberOfPages st \<le> numberOfPages st3"
    unfolding st3_def
    using checked_line [OF Cons.prems, of 6 8 st1 env d]
    by (simp_all add: st1_def d_def margin_def)
  from a(2,3) have e: "extends_by (section_op env) st st3"
    by (intro extends_byI [of _ _ "[(current st1, d)]"]) (simp_all add: section_op_def d_def)
  from Cons.IH [OF a(1)] a e show ?case
    unfolding step by (auto intro: extends_by_trans)
qed

lemma section_pages_ok:
  assumes ok: "cursor_ok st"
  shows "cursor_ok (section_pages env index result st)
       \<and> extends_by (section_op env) st (section_pages env index result st)
       \<and> numberOfPages st + 1 \<le> numberOfPages (section_pages env index result st)
       \<and> (3 * margin \<le> pageHeight env
            \<longrightarrow> yPosition (section_pages env index result st) \<le> pageHeight env - margin)"
proof -
  define st1 where "st1 = (addPage st)\<lparr>yPosition := margin\<rparr>"
  define lbl where "lbl = TextAt (''SECTION '' @ show_nat (index + 1)) margin (yPosition st1)"
  define st2 where "st2 = advance 10 (draw lbl st1)"
  define st3 where "st3 = title_lines env (wrapText env Bold (title result) (contentWidth env) 20) st2"
  define st4 where "st4 = advance 5 st3"
  define st5 where "st5 = content_lines env (wrapText env Normal (content result) (contentWidth env) 11) st4"
  define st6 where "st6 = advance 10 st5"
  define st7 where "st7 = snd (checkAndAddPage env 10 st6)"
  define src where "src = TextAt (''Source: '' @ source result) margin (yPosition st7)"
  define st9 where "st9 = advance 5 (draw src st7)"
  define rule_op where "rule_op = LineTo margin (yPosition st9) (pageWidth env - margin) (yPosition st9)"
  have unfold: "section_pages env index result st = draw rule_op st9"
    by (simp add: section_pages_def Let_def st1_def lbl_def st2_def st3_def st4_def st5_def
        st6_def st7_def src_def st9_def rule_op_def)
  have ok1: "cursor_ok st1" and n1: "numberOfPages st1 = numberOfPages st + 1"
    and d1: "drawn st1 = drawn st" and y1: "yPosition st1 = margin"
    using ok by (simp_all add: st1_def cursor_ok_def)
  have label: "section_op env (current st1, lbl)"
    using ok1 y1
    by (simp add: section_op_def body_op_def cursor_ok_def in_printable_area_def lbl_def margin_def)
  have ok2: "cursor_ok st2" and n2: "numberOfPages st2 = numberOfPages st1"
    using ok1 by (simp_all add: st2_def cursor_ok_def)
  have e2: "extends_by (section_op env) st st2"
    using label d1 by (simp add: st2_def extends_by_def)
  have t3: "cursor_ok st3 \<and> extends_by (section_op env) st2 st3 \<and> numberOfPages st2 \<le> numberOfPages st3"
    unfolding st3_def by (rule title_lines_ok [OF ok2])
  then have ok4: "cursor_ok st4" and e4: "extends_by (section_op env) st3 st4"
    and n4: "numberOfPages st4 = numberOfPages st3"
    by (simp_all add: st4_def cursor_ok_def extends_by_def)
  have t5: "cursor_ok st5 \<and> extends_by (section_op env) st4 st5 \<and> numberOfPages st4 \<le> numberOfPages st5"
    unfolding st5_def by (rule content_lines_ok [OF ok4])
  then have ok6: "cursor_ok st6" and e6: "extends_by (section_op env) st5 st6"
    and n6: "numberOfPages st6 = numberOfPages st5"
    by (simp_all add: st6_def cursor_ok_def extends_by_def)
  have l9: "cursor_ok st9" "drawn st9 = drawn st6 @ [(current st7, src)]"
    "body_op env (current st7, src)"
    "3 * margin \<le> pageHeight env \<longrightarrow> yPosition st9 \<le> pageHeight env - margin"
    "numberOfPages st6 \<le> numberOfPages st9"
    unfolding st9_def
    using checked_line [OF ok6, of 5 10 st7 env src]
    by (simp_all add: st7_def src_def margin_def)
  from l9(2,3) have e9: "extends_by (section_op env) st6 st9"
    by (intro extends_byI [of _ _ "[(current st7, src)]"]) (simp_all add: section_op_def src_def)
  have "section_op env (current st9, rule_op)"
    using l9(1) l9(4)
    by (simp add: section_op_def body_op_def cursor_ok_def in_printable_area_def rule_op_def)
  then have e10: "extends_by (section_op env) st9 (draw rule_op st9)"
    by (rule extends_by_draw)
  have "extends_by (section_op env) st (draw rule_op st9)"
    using e2 t3 e4 t5 e6 e9 e10 by (blast intro: extends_by_trans)
  moreover have "cursor_ok (draw rule_op st9)"
    using l9(1) by (simp add: cursor_ok_def)
  moreover have "numberOfPages st + 1 \<le> numberOfPages (draw rule_op st9)"
    using n1 n2 t3 n4 t5 n6 l9(5) by simp
  moreover have "3 * margin \<le> pageHeight env
      \<longrightarrow> yPosition (draw rule_op st9) \<le> pageHeight env - margin"
    using l9(4) by simp
  ultimately show ?thesis unfolding unfold by simp
qed

lemma sections_ok:
  assumes ok: "cursor_ok st"
  shows "cursor_ok (sections env index results st)
       \<and> extends_by (section_op env) st (sections env index results st)
       \<and> numberOfPages st + length results \<le> numberOfPages (sections env index results st)
       \<and> (3 * margin \<le> pageHeight env \<and> yPosition st \<le> pageHeight env - margin
            \<longrightarrow> yPosition (sections env index results st) \<le> pageHeight env - margin)"
  using ok
proof (induction results arbitrary: index st)
  case Nil
  then show ?case by (simp add: extends_by_refl)
next
  case (Cons result rest)
  let ?st1 = "section_pages env index result st"
  from section_pages_ok [OF Cons.prems, of env index result]
  have a: "cursor_ok ?st1" "extends_by (section_op env) st ?st1"
    "numberOfPages st + 1 \<le> numberOfPages ?st1"
    "3 * margin \<le> pageHeight env \<longrightarrow> yPosition ?st1 \<le> pageHeight env - margin"
    by simp_all
  from Cons.IH [OF a(1), of "index + 1"] a show ?case
    by (auto intro: extends_by_trans)
qed

lemma cover_title_ok:
  assumes "current st = 1"
  shows "extends_by (cover_op env) st (cover_title env ls y st)
       \<and> current (cover_title env ls y st) = 1
       \<and> numberOfPages (cover_title env ls y st) = numberOfPages st"
  using assms
proof (induction ls arbitrary: y st)
  case Nil
  then show ?case by (simp add: extends_by_refl)
next
  case (Cons line rest)
  let ?st1 = "draw (TextAt line ((pageWidth env - getTextWidth env line) / 2) y) st"
  have "extends_by (cover_op env) st ?st1"
    using Cons.prems by (intro extends_by_draw) (simp add: cover_op_def)
  moreover have "current ?st1 = 1" using Cons.prems by simp
  ultimately show ?case
    using Cons.IH [of ?st1 "y + 12"] by (auto intro: extends_by_trans)
qed

lemma cover_page_ok:
  "extends_by (cover_op env) new_document (cover_page env topic new_document)
   \<and> current (cover_page env topic new_document) = 1
   \<and> numberOfPages (cover_page env topic new_document) = 1"
proof -
  define st1 where "st1 = draw (Rect 0 0 (pageWidth env) (pageHeight env)) new_document"
  define ls where "ls = wrapText env Bold (toUpperCase topic) (contentWidth env - 20) 32"
  define y where "y = (pageHeight env - of_nat (length ls) * 12) / 2"
  define st2 where "st2 = cover_title env ls y st1"
  define st3 where "st3 = draw (TextCentered ''Deep Research Report'' (pageWidth env / 2) (pageHeight env - 40)) st2"
  define st4 where "st4 = draw (TextCentered (currentDate env) (pageWidth env / 2) (pageHeight env - 30)) st3"
  have unfold: "cover_page env topic new_document = st4"
    by (simp add: cover_page_def Let_def st1_def ls_def y_def st2_def st3_def st4_def)
  have c0: "current new_document = 1" "numberOfPages new_document = 1"
    by (simp_all add: new_document_def)
  have e1: "extends_by (cover_op env) new_document st1" and c1: "current st1 = 1"
    and n1: "numberOfPages st1 = 1"
    unfolding st1_def using c0 by (simp_all add: extends_by_draw cover_op_def)
  from cover_title_ok [OF c1, of env ls y]
  have e2: "extends_by (cover_op env) st1 st2" and c2: "current st2 = 1"
    and n2: "numberOfPages st2 = 1"
    by (simp_all add: st2_def n1)
  have e3: "extends_by (cover_op env) st2 st3" and c3: "current st3 = 1"
    and n3: "numberOfPages st3 = 1"
    unfolding st3_def using c2 n2 by (simp_all add: extends_by_draw cover_op_def)
  have e4: "extends_by (cover_op env) st3 st4" and c4: "current st4 = 1"
    and n4: "numberOfPages st4 = 1"
    unfolding st4_def using c3 n3 by (simp_all add: extends_by_draw cover_op_def)
  from e1 e2 e3 e4 have "extends_by (cover_op env) new_document st4"
    by (blast intro: extends_by_trans)
  with c4 n4 show ?thesis unfolding unfold by simp
qed

lemma toc_heading_ok:
  assumes "numberOfPages st = 1"
  shows "cursor_ok (toc_heading st) \<and> extends_by (section_op env) st (toc_heading st)
       \<and> numberOfPages (toc_heading st) = 2
       \<and> yPosition (toc_heading st) = 35"
proof -
  have "section_op env (2, TextAt ''Table of Contents'' margin margin)"
    by (simp add: section_op_def body_op_def in_printable_area_def margin_def)
  then have "extends_by (section_op env) st (toc_heading st)"
    using assms
    by (intro extends_byI [of _ _ "[(2, TextAt ''Table of Contents'' margin margin)]"])
       (simp_all add: toc_heading_def Let_def)
  then show ?thesis
    using assms by (simp add: toc_heading_def Let_def cursor_ok_def margin_def)
qed

lemma section_op_body_op: "section_op env e \<Longrightarrow> body_op env e"
  by (simp add: section_op_def)

lemma cursor_layout_ok:
  shows "\<exists>new. drawn (cursor_layout env topic results)
                 = drawn (cover_page env topic new_document) @ new
               \<and> list_all (body_op env) new"
    and "list_all (cover_op env) (drawn (cover_page env topic new_document))"
    and "cursor_ok (cursor_layout env topic results)"
    and "3 * margin \<le> pageHeight env
          \<longrightarrow> yPosition (cursor_layout env topic results) \<le> pageHeight env - margin"
    and "length results + 2 \<le> numberOfPages (cursor_layout env topic results)"
proof -
  let ?cov = "cover_page env topic new_document"
  let ?hd = "toc_heading ?cov"
  let ?toc = "toc_entries env 0 results ?hd"
  have cov: "extends_by (cover_op env) new_document ?cov" "numberOfPages ?cov = 1"
    using cover_page_ok [of env topic] by simp_all
  from cov(1) show "list_all (cover_op env) (drawn ?cov)"
    by (simp add: extends_by_def new_document_def)
  from toc_heading_ok [OF cov(2), of env]
  have h: "cursor_ok ?hd" "extends_by (section_op env) ?cov ?hd" "numberOfPages ?hd = 2"
    "yPosition ?hd = 35"
    by simp_all
  have hy: "3 * margin \<le> pageHeight env \<longrightarrow> yPosition ?hd \<le> pageHeight env - margin"
    using h(4) by (simp add: margin_def)
  from toc_entries_ok [OF h(1), of env 0 results] h hy
  have t: "cursor_ok ?toc" "extends_by (body_op env) ?hd ?toc" "2 \<le> numberOfPages ?toc"
    "3 * margin \<le> pageHeight env \<longrightarrow> yPosition ?toc \<le> pageHeight env - margin"
    by simp_all
  from sections_ok [OF t(1), of env 0 results] t
  have s: "cursor_ok (sections env 0 results ?toc)"
    "extends_by (section_op env) ?toc (sections env 0 results ?toc)"
    "length results + 2 \<le> numberOfPages (sections env 0 results ?toc)"
    "3 * margin \<le> pageHeight env
       \<longrightarrow> yPosition (sections env 0 results ?toc) \<le> pageHeight env - margin"
    by simp_all
  have h2: "extends_by (body_op env) ?cov ?hd"
    using h(2) by (rule extends_by_mono) (rule section_op_body_op)
  have s2: "extends_by (body_op env) ?toc (sections env 0 results ?toc)"
    using s(2) by (rule extends_by_mono) (rule section_op_body_op)
  from h2 t(2) s2 have "extends_by (body_op env) ?cov (cursor_layout env topic results)"
    unfolding cursor_layout_def by (blast intro: extends_by_trans)
  then show "\<exists>new. drawn (cursor_layout env topic results) = drawn ?cov @ new
               \<and> list_all (body_op env) new"
    by (rule extends_byD)
  from s show "cursor_ok (cursor_layout env topic results)"
    and "3 * margin \<le> pageHeight env
          \<longrightarrow> yPosition (cursor_layout env topic results) \<le> pageHeight env - margin"
    and "length results + 2 \<le> numberOfPages (cursor_layout env topic results)"
    by (simp_all add: cursor_layout_def)
qed

lemma page_ops_append:
  "drawn st' = drawn st @ new \<Longrightarrow>
     page_ops st' k = page_ops st k @ map snd (filter (\<lambda>e. fst e = k) new)"
  by (simp add: page_ops_def)

lemma filter_page_none: "list_all (\<lambda>e. fst e \<noteq> k) es \<Longrightarrow> filter (\<lambda>e. fst e = k) es = []"
  by (induction es) simp_all

lemma filter_page_all: "list_all (\<lambda>e. fst e = k) es \<Longrightarrow> filter (\<lambda>e. fst e = k) es = es"
  by (induction es) simp_all

lemma list_all_weaken: "list_all P xs \<Longrightarrow> (\<And>x. P x \<Longrightarrow> Q x) \<Longrightarrow> list_all Q xs"
  by (induction xs) simp_all

lemma cover_ops_page1:
  "list_all (\<lambda>e. fst e = 1) (drawn (cover_page env topic new_document))"
  using cursor_layout_ok(2) [of env topic]
  by (rule list_all_weaken) (simp add: cover_op_def)

lemma body_page_ops:
  assumes "2 \<le> k"
  shows "\<exists>new. page_ops (cursor_layout env topic results) k = map snd (filter (\<lambda>e. fst e = k) new)
            \<and> list_all (body_op env) new"
proof -
  obtain new where new: "drawn (cursor_layout env topic results)
        = drawn (cover_page env topic new_document) @ new" "list_all (body_op env) new"
    using cursor_layout_ok(1) by blast
  have "list_all (\<lambda>e. fst e \<noteq> k) (drawn (cover_page env topic new_document))"
    using cover_ops_page1 [of env topic] by (rule list_all_weaken) (use assms in simp)
  then have "page_ops (cover_page env topic new_document) k = []"
    by (simp add: page_ops_def filter_page_none)
  with page_ops_append [OF new(1), of k] new(2) show ?thesis by auto
qed

lemma cover_page_ops:
  "page_ops (cursor_layout env topic results) 1 = map snd (drawn (cover_page env topic new_document))"
proof -
  obtain new where new: "drawn (cursor_layout env topic results)
        = drawn (cover_page env topic new_document) @ new" "list_all (body_op env) new"
    using cursor_layout_ok(1) by blast
  have "list_all (\<lambda>e. fst e \<noteq> 1) new"
    using new(2) by (rule list_all_weaken) (simp add: body_op_def)
  then have "filter (\<lambda>e. fst e = 1) new = []"
    by (rule filter_page_none)
  with page_ops_append [OF new(1), of 1] cover_ops_page1 [of env topic]
  show ?thesis by (simp add: page_ops_def filter_page_all)
qed

lemma a4_tall: "3 * margin \<le> pageHeight a4_env"
  by (simp add: a4_env_def margin_def)

lemma example_layout_page3:
  "page_ops (cursor_layout a4_env ''T'' [example_block ''A'' 1]) 3
     = [TextAt ''SECTION 1'' 20 20, TextAt ''A'' 20 30, TextAt ''x'' 20 45, TextAt ''x'' 20 51,
        TextAt ''Source: src'' 20 67, LineTo 20 72 (pageWidth a4_env - 20) 72]"
  by code_simp


subsection \<open>The footers\<close>

lemma filter_eq_upt: "filter (\<lambda>j. j = i) [a ..< b] = (if a \<le> i \<and> i < b then [i] else [])"
  by (induction b) auto

lemma footers_fold:
  "k \<le> numberOfPages st \<Longrightarrow>
     numberOfPages (foldl (footer_step env topic n) st [1 ..< Suc k]) = numberOfPages st
     \<and> yPosition (foldl (footer_step env topic n) st [1 ..< Suc k]) = yPosition st
     \<and> drawn (foldl (footer_step env topic n) st [1 ..< Suc k])
         = drawn st @ map (\<lambda>i. (i, footer_op env topic i n)) [2 ..< Suc k]"
proof (induction k)
  case 0
  then show ?case by simp
next
  case (Suc k)
  let ?F = "foldl (footer_step env topic n) st [1 ..< Suc k]"
  from Suc have ih: "numberOfPages ?F = numberOfPages st" "yPosition ?F = yPosition st"
    "drawn ?F = drawn st @ map (\<lambda>i. (i, footer_op env topic i n)) [2 ..< Suc k]"
    by simp_all
  have fold: "foldl (footer_step env topic n) st [1 ..< Suc (Suc k)]
      = footer_step env topic n ?F (Suc k)"
    by simp
  have sp: "setPage (Suc k) ?F = ?F\<lparr>current := Suc k\<rparr>"
    using Suc.prems ih(1) by (simp add: setPage_def)
  show ?case
  proof (cases "k = 0")
    case True
    then show ?thesis unfolding fold using ih sp by (simp add: footer_step_def Let_def)
  next
    case False
    then have "[2 ..< Suc (Suc k)] = [2 ..< Suc k] @ [Suc k]" by simp
    then show ?thesis unfolding fold using ih sp False
      by (simp add: footer_step_def Let_def)
  qed
qed

lemma footers_drawn:
  "drawn (footers env topic st)
     = drawn st @ map (\<lambda>i. (i, footer_op env topic i (numberOfPages st))) [2 ..< Suc (numberOfPages st)]"
  and footers_pages: "numberOfPages (footers env topic st) = numberOfPages st"
  and footers_cursor: "yPosition (footers env topic st) = yPosition st"
  using footers_fold [of "numberOfPages st" st env topic "numberOfPages st"]
  by (simp_all add: footers_def Let_def)

lemma footer_entries_on_page:
  "map snd (filter (\<lambda>e. fst e = k) (map (\<lambda>i. (i, footer_op env topic i n)) [2 ..< Suc n]))
     = (if 2 \<le> k \<and> k \<le> n then [footer_op env topic k n] else [])"
proof -
  have "filter (\<lambda>e. fst e = k) (map (\<lambda>i. (i, footer_op env topic i n)) [2 ..< Suc n])
      = map (\<lambda>i. (i, footer_op env topic i n)) (filter (\<lambda>i. i = k) [2 ..< Suc n])"
    by (simp add: filter_map comp_def)
  then show ?thesis by (auto simp: filter_eq_upt)
qed

lemma layout_page_ops:
  "page_ops (layout env topic results) k
     = page_ops (cursor_layout env topic results) k
       @ (if 2 \<le> k \<and> k \<le> numberOfPages (cursor_layout env topic results)
          then [footer_op env topic k (numberOfPages (cursor_layout env topic results))]
          else [])"
  unfolding layout_def
  using page_ops_append [OF footers_drawn, of env topic "cursor_layout env topic results" k]
  by (simp only: footer_entries_on_page)

lemma no_footer_in_body:
  "filter (is_footer env) (page_ops (cursor_layout env topic results) k) = []"
proof -
  obtain new where new: "drawn (cursor_layout env topic results)
        = drawn (cover_page env topic new_document) @ new" "list_all (body_op env) new"
    using cursor_layout_ok(1) by blast
  have "list_all (\<lambda>e. \<not> is_footer env (snd e)) (drawn (cover_page env topic new_document))"
    using cursor_layout_ok(2) [of env topic]
    by (rule list_all_weaken) (simp add: cover_op_def)
  moreover have "list_all (\<lambda>e. \<not> is_footer env (snd e)) new"
    using new(2) by (rule list_all_weaken) (simp add: body_op_def)
  ultimately have "list_all (\<lambda>e. \<not> is_footer env (snd e)) (drawn (cursor_layout env topic results))"
    using new(1) by simp
  then show ?thesis
    by (auto simp: page_ops_def list_all_iff filter_empty_conv)
qed

lemma is_footer_footer_op: "is_footer env (footer_op env topic i n)"
  by (simp add: footer_op_def)

lemma empty_layout_page2:
  "page_ops (cursor_layout env topic []) 2 = [TextAt ''Table of Contents'' margin margin]"
  and empty_layout_pages: "numberOfPages (cursor_layout env topic []) = 2"
proof -
  let ?cov = "cover_page env topic new_document"
  have cov: "numberOfPages ?cov = 1" "list_all (\<lambda>e. fst e = 1) (drawn ?cov)"
    using cover_page_ok [of env topic] cover_ops_page1 [of env topic] by simp_all
  from cov(2) have "list_all (\<lambda>e. fst e \<noteq> 2) (drawn ?cov)"
    by (rule list_all_weaken) simp
  then have "filter (\<lambda>e. fst e = 2) (drawn ?cov) = []"
    by (rule filter_page_none)
  then show "page_ops (cursor_layout env topic []) 2 = [TextAt ''Table of Contents'' margin margin]"
    using cov(1) by (simp add: cursor_layout_def toc_heading_def Let_def page_ops_def)
  show "numberOfPages (cursor_layout env topic []) = 2"
    using cov(1) by (simp add: cursor_layout_def toc_heading_def Let_def)
qed

text \<open>
  Claim C9. The footer pass adds no page. After it, every page \<open>i\<close> from 2 to the
  number of pages holds exactly one operation on the footer line, the centred text
  \<^verbatim>\<open>{topic} - Page {i} of {total}\<close> with the final number of pages as the total; page 1
  holds the cover as it was drawn and nothing on the footer line. For no blocks the
  document has two pages, and page 2 holds the heading of the table of contents and its
  footer.
\<close>

theorem footer_on_every_page_but_cover:
  "numberOfPages (layout env topic results) = numberOfPages (cursor_layout env topic results)
   \<and> (2 \<le> i \<and> i \<le> numberOfPages (layout env topic results) \<longrightarrow>
        filter (is_footer env) (page_ops (layout env topic results) i)
          = [TextCentered (topic @ '' - Page '' @ show_nat i @ '' of ''
                             @ show_nat (numberOfPages (layout env topic results)))
               (pageWidth env / 2) (pageHeight env - 10)])
   \<and> filter (is_footer env) (page_ops (layout env topic results) 1) = []
   \<and> page_ops (layout env topic results) 1 = map snd (drawn (cover_page env topic new_document))
   \<and> numberOfPages (layout env topic []) = 2
   \<and> page_ops (layout env topic []) 2
       = [TextAt ''Table of Contents'' margin margin,
          TextCentered (topic @ '' - Page 2 of 2'') (pageWidth env / 2) (pageHeight env - 10)]"
proof -
  have n: "numberOfPages (layout env topic results) = numberOfPages (cursor_layout env topic results)"
    for results
    by (simp add: layout_def footers_pages)
  have two: "show_nat 2 = ''2''"
    by (simp add: show_nat.simps digit_chars_def)
  have p1: "page_ops (layout env topic results) 1 = map snd (drawn (cover_page env topic new_document))"
    using cover_page_ops [of env topic results] by (simp add: layout_page_ops)
  have "filter (is_footer env) (page_ops (layout env topic results) 1) = []"
    using no_footer_in_body [of env topic results 1] by (simp add: layout_page_ops)
  moreover have "filter (is_footer env) (page_ops (layout env topic results) i)
          = [TextCentered (topic @ '' - Page '' @ show_nat i @ '' of ''
                             @ show_nat (numberOfPages (layout env topic results)))
               (pageWidth env / 2) (pageHeight env - 10)]"
    if "2 \<le> i \<and> i \<le> numberOfPages (layout env topic results)"
    using that no_footer_in_body [of env topic results i] is_footer_footer_op [of env topic i]
    by (simp add: layout_page_ops n) (simp add: footer_op_def footer_text_def)
  moreover have "page_ops (layout env topic []) 2
       = [TextAt ''Table of Contents'' margin margin,
          TextCentered (topic @ '' - Page 2 of 2'') (pageWidth env / 2) (pageHeight env - 10)]"
    by (simp add: layout_page_ops empty_layout_page2 empty_layout_pages footer_op_def
        footer_text_def two)
  ultimately show ?thesis
    using n p1 by (simp add: empty_layout_pages)
qed

lemma example_layout_pages:
  "numberOfPages (layout a4_env ''T'' [example_block ''A'' 1]) = 3"
  by code_simp

theorem footer_on_every_page_but_cover_witness:
  "2 \<le> (3::nat) \<and> 3 \<le> numberOfPages (layout a4_env ''T'' [example_block ''A'' 1])
   \<and> filter (is_footer a4_env) (page_ops (layout a4_env ''T'' [example_block ''A'' 1]) 3)
       = [TextCentered ''T - Page 3 of 3'' (pageWidth a4_env / 2) (pageHeight a4_env - 10)]"
proof -
  have three: "show_nat 3 = ''3''"
    by (simp add: show_nat.simps digit_chars_def)
  have pages: "numberOfPages (layout a4_env ''T'' [example_block ''A'' 1]) = 3"
    by (rule example_layout_pages)
  note t = footer_on_every_page_but_cover [of a4_env "''T''" "[example_block ''A'' 1]" 3]
  from t [THEN conjunct2, THEN conjunct1] show ?thesis
    unfolding pages by (simp add: three)
qed

subsection \<open>The printable area\<close>

text \<open>
  Claim C8, as stated, fails: not every text line is placed by the cursor after a check.
  The footer pass writes the footer of page 2 of the document without sections at
  \<^verbatim>\<open>pageHeight - 10\<close>, below \<^verbatim>\<open>pageHeight - margin\<close>. The lines of the cover title
  are placed from \<^verbatim>\<open>titleY\<close> in steps of 12 without any check: of a title of 30 lines on
  A4, four lines stand below \<^verbatim>\<open>pageHeight - margin\<close>, two of them below the page.
\<close>

theorem footer_and_cover_title_outside_printable_area:
  "page_ops (layout a4_env ''T'' []) 2
     = [TextAt ''Table of Contents'' 20 20,
        TextCentered ''T - Page 2 of 2'' (pageWidth a4_env / 2) (pageHeight a4_env - 10)]
   \<and> \<not> in_printable_area a4_env
         (TextCentered ''T - Page 2 of 2'' (pageWidth a4_env / 2) (pageHeight a4_env - 10))
   \<and> length (wrapText a4_env Bold (toUpperCase (numbered_lines 29)) (contentWidth a4_env - 20) 32)
       = 30
   \<and> length (filter (\<lambda>d. pageHeight a4_env - margin < op_y d)
        (page_ops (layout a4_env (numbered_lines 29) []) 1)) = 4
   \<and> length (filter (\<lambda>d. pageHeight a4_env < op_y d)
        (page_ops (layout a4_env (numbered_lines 29) []) 1)) = 2"
proof -
  have a: "page_ops (layout a4_env ''T'' []) 2
     = [TextAt ''Table of Contents'' 20 20,
        TextCentered ''T - Page 2 of 2'' (pageWidth a4_env / 2) (pageHeight a4_env - 10)]"
    by code_simp
  have b: "\<not> in_printable_area a4_env
         (TextCentered ''T - Page 2 of 2'' (pageWidth a4_env / 2) (pageHeight a4_env - 10))"
    by (simp add: in_printable_area_def a4_env_def margin_def)
  have c: "length (wrapText a4_env Bold (toUpperCase (numbered_lines 29)) (contentWidth a4_env - 20) 32)
       = 30"
    by code_simp
  have d: "length (filter (\<lambda>d. pageHeight a4_env - margin < op_y d)
        (page_ops (layout a4_env (numbered_lines 29) []) 1)) = 4"
    by code_simp
  have e: "length (filter (\<lambda>d. pageHeight a4_env < op_y d)
        (page_ops (layout a4_env (numbered_lines 29) []) 1)) = 2"
    by code_simp
  from a b c d e show ?thesis by blast
qed

text \<open>
  Claim C8, amended, for the pages that the cursor lays out. On a page at least three
  margins high (A4 is 297 mm, the margin 20 mm), everything that the table of contents
  and the sections draw, which is everything on page 2 and the later pages before the
  footers are stamped, is placed between the top margin and \<^verbatim>\<open>pageHeight - margin\<close>.
  In the finished document the only other mark on these pages is the footer of the
  page, which the footer pass puts at \<^verbatim>\<open>pageHeight - 10\<close>, inside the bottom margin.
  Page 1 holds the cover only, which is not placed by the cursor. Each line of a title,
  of a body and of the table of contents is preceded by its own call of
  \<^verbatim>\<open>checkAndAddPage\<close>. The cursor itself is never above the top margin and ends inside
  the printable area; when it stands below \<^verbatim>\<open>pageHeight - margin\<close> (as it can after
  the gap that follows a body), the next call of \<^verbatim>\<open>checkAndAddPage\<close>, which comes
  before anything is drawn, starts a new page and puts the cursor on the top margin.
\<close>

theorem cursor_stays_in_printable_area:
  "3 * margin \<le> pageHeight env \<Longrightarrow>
     (2 \<le> k \<longrightarrow> list_all (in_printable_area env) (page_ops (cursor_layout env topic results) k))
     \<and> (2 \<le> k \<longrightarrow>
          list_all (\<lambda>d. in_printable_area env d
                         \<or> d = footer_op env topic k (numberOfPages (layout env topic results)))
            (page_ops (layout env topic results) k))
     \<and> op_y (footer_op env topic k n) = pageHeight env - 10
     \<and> page_ops (cursor_layout env topic results) 1
         = map snd (drawn (cover_page env topic new_document))
     \<and> page_ops (layout env topic results) 1
         = map snd (drawn (cover_page env topic new_document))
     \<and> margin \<le> yPosition (cursor_layout env topic results)
     \<and> yPosition (cursor_layout env topic results) \<le> pageHeight env - margin
     \<and> (pageHeight env - margin < yPosition st \<and> 0 \<le> r \<longrightarrow>
          snd (checkAndAddPage env r st) = (addPage st)\<lparr>yPosition := margin\<rparr>)"
proof -
  assume tall: "3 * margin \<le> pageHeight env"
  let ?n = "numberOfPages (layout env topic results)"
  have area: "list_all (in_printable_area env) (page_ops (cursor_layout env topic results) k)"
    if "2 \<le> k"
  proof -
    from body_page_ops [OF that, of env topic results]
    obtain new where new: "page_ops (cursor_layout env topic results) k
        = map snd (filter (\<lambda>e. fst e = k) new)" "list_all (body_op env) new"
      by blast
    from new(2) tall have "list_all (\<lambda>e. in_printable_area env (snd e)) new"
      by (auto simp: list_all_iff body_op_def)
    then show ?thesis unfolding new(1) by (auto simp: list_all_iff)
  qed
  have n: "?n = numberOfPages (cursor_layout env topic results)"
    by (simp add: layout_def footers_pages)
  have finished: "list_all (\<lambda>d. in_printable_area env d \<or> d = footer_op env topic k ?n)
            (page_ops (layout env topic results) k)"
    if "2 \<le> k"
  proof -
    from area [OF that]
    have "list_all (\<lambda>d. in_printable_area env d \<or> d = footer_op env topic k ?n)
        (page_ops (cursor_layout env topic results) k)"
      by (rule list_all_weaken) simp
    then show ?thesis by (simp add: layout_page_ops n)
  qed
  have foot: "op_y (footer_op env topic k n) = pageHeight env - 10"
    by (simp add: footer_op_def)
  have p1: "page_ops (layout env topic results) 1
      = map snd (drawn (cover_page env topic new_document))"
    using cover_page_ops [of env topic results] by (simp add: layout_page_ops)
  have lo: "margin \<le> yPosition (cursor_layout env topic results)"
    using cursor_layout_ok(3) [of env topic results] by (simp add: cursor_ok_def)
  have hi: "yPosition (cursor_layout env topic results) \<le> pageHeight env - margin"
    using cursor_layout_ok(4) [of env topic results] tall by simp
  have reset: "pageHeight env - margin < yPosition st \<and> 0 \<le> r \<longrightarrow>
          snd (checkAndAddPage env r st) = (addPage st)\<lparr>yPosition := margin\<rparr>"
    by (auto simp: checkAndAddPage_def)
  from area finished foot cover_page_ops [of env topic results] p1 lo hi reset
  show ?thesis by blast
qed

theorem cursor_stays_in_printable_area_witness:
  "3 * margin \<le> pageHeight a4_env
   \<and> list_all (in_printable_area a4_env)
        [TextAt ''SECTION 1'' 20 20, TextAt ''A'' 20 30, TextAt ''x'' 20 45, TextAt ''x'' 20 51,
         TextAt ''Source: src'' 20 67, LineTo 20 72 (pageWidth a4_env - 20) 72]
   \<and> list_all (\<lambda>d. in_printable_area a4_env d
          \<or> d = footer_op a4_env ''T'' 3 (numberOfPages (layout a4_env ''T'' [example_block ''A'' 1])))
        (page_ops (layout a4_env ''T'' [example_block ''A'' 1]) 3)
   \<and> yPosition (cursor_layout a4_env ''T'' [example_block ''A'' 1]) \<le> pageHeight a4_env - margin
   \<and> pageHeight a4_env - margin < yPosition (advance 263 new_document)
   \<and> snd (checkAndAddPage a4_env 10 (advance 263 new_document))
       = (addPage (advance 263 new_document))\<lparr>yPosition := margin\<rparr>"
proof -
  have past: "pageHeight a4_env - margin < yPosition (advance 263 new_document)"
    by (simp add: a4_env_def margin_def new_document_def)
  note t = cursor_stays_in_printable_area [OF a4_tall,
      where k = 3 and topic = "''T''" and results = "[example_block ''A'' 1]"
        and st = "advance 263 new_document" and r = 10]
  from t have a: "list_all (in_printable_area a4_env)
             (page_ops (cursor_layout a4_env ''T'' [example_block ''A'' 1]) 3)"
    and a': "list_all (\<lambda>d. in_printable_area a4_env d
          \<or> d = footer_op a4_env ''T'' 3 (numberOfPages (layout a4_env ''T'' [example_block ''A'' 1])))
        (page_ops (layout a4_env ''T'' [example_block ''A'' 1]) 3)"
    and b: "yPosition (cursor_layout a4_env ''T'' [example_block ''A'' 1])
              \<le> pageHeight a4_env - margin"
    by simp_all
  from t past have c: "snd (checkAndAddPage a4_env 10 (advance 263 new_document))
       = (addPage (advance 263 new_document))\<lparr>yPosition := margin\<rparr>"
    by simp
  from a have "list_all (in_printable_area a4_env)
        [TextAt ''SECTION 1'' 20 20, TextAt ''A'' 20 30, TextAt ''x'' 20 45, TextAt ''x'' 20 51,
         TextAt ''Source: src'' 20 67, LineTo 20 72 (pageWidth a4_env - 20) 72]"
    by (simp only: example_layout_page3)
  with a' b c past a4_tall show ?thesis by blast
qed

subsection \<open>The links of the table of contents\<close>

lemma links_of_append: "links_of (xs @ ys) = links_of xs @ links_of ys"
  by (simp add: links_of_def List.map_filter_def)

lemma links_of_none: "list_all (\<lambda>e. link_target (snd e) = None) es \<Longrightarrow> links_of es = []"
  by (induction es) (simp_all add: links_of_def List.map_filter_def)

lemma toc_links_links_of: "toc_links st = links_of (drawn st)"
  by (simp add: toc_links_def links_of_def)

lemma extends_no_links:
  assumes "extends_by Q st st'" and "\<And>e. Q e \<Longrightarrow> link_target (snd e) = None"
  shows "toc_links st' = toc_links st"
proof -
  from assms(1) obtain new where new: "drawn st' = drawn st @ new" "list_all Q new"
    using extends_byD by blast
  from new(2) assms(2) have "list_all (\<lambda>e. link_target (snd e) = None) new"
    by (rule list_all_weaken)
  then show ?thesis
    by (simp add: toc_links_links_of new(1) links_of_append links_of_none)
qed

lemma toc_entries_links:
  "toc_links (toc_entries env index results st)
     = toc_links st @ map (\<lambda>i. i + 3) [index ..< index + length results]"
proof (induction results arbitrary: index st)
  case Nil
  then show ?case by simp
next
  case (Cons result rest)
  define st1 where "st1 = snd (checkAndAddPage env 10 st)"
  define d where "d = TextWithLink (show_nat (index + 1) @ ''. '' @ title result)
                        (margin + 5) (yPosition st1) (index + 3)"
  define st3 where "st3 = advance 7 (draw d st1)"
  have step: "toc_entries env index (result # rest) st = toc_entries env (index + 1) rest st3"
    by (simp add: st1_def d_def st3_def Let_def)
  have "drawn st3 = drawn st @ [(current st1, d)]"
    by (simp add: st3_def st1_def)
  then have l3: "toc_links st3 = toc_links st @ [index + 3]"
    by (simp add: toc_links_links_of links_of_append) (simp add: links_of_def List.map_filter_def d_def)
  have iv: "[index ..< index + length (result # rest)]
      = index # [index + 1 ..< index + 1 + length rest]"
    by (subst upt_rec) simp
  show ?case
    unfolding step iv Cons.IH [of "index + 1" st3] l3 by simp
qed

text \<open>
  What the code does for every list of blocks: the table of contents has one link per
  block, and the link of block \<open>i\<close> (counted from 0) goes to page \<open>i + 3\<close>, whatever
  the blocks hold. The document has at least two pages more than there are blocks.
\<close>

lemma layout_toc_links:
  "toc_links (layout env topic results) = map (\<lambda>i. i + 3) [0 ..< length results]"
proof -
  let ?cov = "cover_page env topic new_document"
  let ?hd = "toc_heading ?cov"
  let ?toc = "toc_entries env 0 results ?hd"
  let ?body = "cursor_layout env topic results"
  have cov: "extends_by (cover_op env) new_document ?cov" "numberOfPages ?cov = 1"
    using cover_page_ok [of env topic] by simp_all
  have "toc_links ?cov = toc_links new_document"
    using cov(1) by (rule extends_no_links) (simp add: cover_op_def)
  then have l0: "toc_links ?cov = []"
    by (simp add: toc_links_links_of new_document_def links_of_def List.map_filter_def)
  from toc_heading_ok [OF cov(2), of env]
  have h: "cursor_ok ?hd" "extends_by (section_op env) ?cov ?hd" by simp_all
  from h(2) have l1: "toc_links ?hd = toc_links ?cov"
    by (rule extends_no_links) (simp add: section_op_def)
  from toc_entries_ok [OF h(1), of env 0 results] have t: "cursor_ok ?toc" by simp
  from sections_ok [OF t, of env 0 results]
  have "extends_by (section_op env) ?toc (sections env 0 results ?toc)" by simp
  then have l3: "toc_links ?body = toc_links ?toc"
    unfolding cursor_layout_def by (rule extends_no_links) (simp add: section_op_def)
  have "list_all (\<lambda>e. link_target (snd e) = None)
          (map (\<lambda>i. (i, footer_op env topic i (numberOfPages ?body))) [2 ..< Suc (numberOfPages ?body)])"
    by (simp add: list_all_iff footer_op_def)
  then have "toc_links (layout env topic results) = toc_links ?body"
    unfolding layout_def
    by (simp add: toc_links_links_of footers_drawn links_of_append links_of_none)
  then show ?thesis
    using l0 l1 l3 toc_entries_links [of env 0 results ?hd] by simp
qed

lemma layout_page_count:
  "length results + 2 \<le> numberOfPages (layout env topic results)"
  using cursor_layout_ok(5) [of results env topic]
  by (simp add: layout_def footers_pages)

lemma check_no_break:
  "yPosition st + r \<le> pageHeight env - margin \<Longrightarrow> snd (checkAndAddPage env r st) = st"
  by (simp add: checkAndAddPage_def)

lemma toc_entries_fit:
  "yPosition st + 7 * of_nat (length results) + 3 \<le> pageHeight env - margin \<Longrightarrow>
     numberOfPages (toc_entries env index results st) = numberOfPages st"
proof (induction results arbitrary: index st)
  case Nil
  then show ?case by simp
next
  case (Cons result rest)
  from Cons.prems have room: "yPosition st + 10 \<le> pageHeight env - margin"
    by simp
  have "yPosition st + 7 + 7 * of_nat (length rest) + 3 \<le> pageHeight env - margin"
    using Cons.prems by (simp add: algebra_simps)
  then show ?case
    by (simp add: Let_def check_no_break [OF room] Cons.IH)
qed

lemma title_lines_fit:
  "yPosition st + 10 * of_nat (length ls) + 2 \<le> pageHeight env - margin \<Longrightarrow>
     numberOfPages (title_lines env ls st) = numberOfPages st
     \<and> yPosition (title_lines env ls st) = yPosition st + 10 * of_nat (length ls)"
proof (induction ls arbitrary: st)
  case Nil
  then show ?case by simp
next
  case (Cons line rest)
  from Cons.prems have room: "yPosition st + 12 \<le> pageHeight env - margin"
    by simp
  have "yPosition st + 10 + 10 * of_nat (length rest) + 2 \<le> pageHeight env - margin"
    using Cons.prems by (simp add: algebra_simps)
  then show ?case
    by (simp add: Let_def check_no_break [OF room] Cons.IH algebra_simps)
qed

lemma content_lines_fit:
  "yPosition st + 6 * of_nat (length ls) + 2 \<le> pageHeight env - margin \<Longrightarrow>
     numberOfPages (content_lines env ls st) = numberOfPages st
     \<and> yPosition (content_lines env ls st) = yPosition st + 6 * of_nat (length ls)"
proof (induction ls arbitrary: st)
  case Nil
  then show ?case by simp
next
  case (Cons line rest)
  from Cons.prems have room: "yPosition st + 8 \<le> pageHeight env - margin"
    by simp
  have "yPosition st + 6 + 6 * of_nat (length rest) + 2 \<le> pageHeight env - margin"
    using Cons.prems by (simp add: algebra_simps)
  then show ?case
    by (simp add: Let_def check_no_break [OF room] Cons.IH algebra_simps)
qed


lemma extends_by_keeps: "extends_by Q st st' \<Longrightarrow> set (drawn st) \<subseteq> set (drawn st')"
  using extends_byD by fastforce

lemma section_pages_fit:
  assumes ok: "cursor_ok st" and fits: "fits_on_one_page env result"
  shows "numberOfPages (section_pages env index result st) = numberOfPages st + 1
       \<and> (numberOfPages st + 1, section_label index) \<in> set (drawn (section_pages env index result st))"
proof -
  define T where "T = wrapText env Bold (title result) (contentWidth env) 20"
  define C where "C = wrapText env Normal (content result) (contentWidth env) 11"
  define st1 where "st1 = (addPage st)\<lparr>yPosition := margin\<rparr>"
  define st2 where "st2 = advance 10 (draw (section_label index) st1)"
  define st3 where "st3 = title_lines env T st2"
  define st4 where "st4 = advance 5 st3"
  define st5 where "st5 = content_lines env C st4"
  define st6 where "st6 = advance 10 st5"
  define st7 where "st7 = snd (checkAndAddPage env 10 st6)"
  define src where "src = TextAt (''Source: '' @ source result) margin (yPosition st7)"
  define st9 where "st9 = advance 5 (draw src st7)"
  define rule_op where "rule_op = LineTo margin (yPosition st9) (pageWidth env - margin) (yPosition st9)"
  from fits have room: "75 + 10 * of_nat (length T) + 6 * of_nat (length C) \<le> pageHeight env"
    by (simp add: fits_on_one_page_def T_def C_def)
  have n2: "numberOfPages st2 = numberOfPages st + 1" and y2: "yPosition st2 = 30"
    and lbl: "(numberOfPages st + 1, section_label index) \<in> set (drawn st2)"
    by (simp_all add: st2_def st1_def margin_def)
  have "yPosition st2 + 10 * of_nat (length T) + 2 \<le> pageHeight env - margin"
    using room y2 by (simp add: margin_def)
  from title_lines_fit [OF this]
  have n3: "numberOfPages st3 = numberOfPages st + 1"
    and y3: "yPosition st3 = 30 + 10 * of_nat (length T)"
    by (simp_all add: st3_def n2 y2)
  have n4: "numberOfPages st4 = numberOfPages st + 1"
    and y4: "yPosition st4 = 35 + 10 * of_nat (length T)"
    by (simp_all add: st4_def n3 y3)
  have "yPosition st4 + 6 * of_nat (length C) + 2 \<le> pageHeight env - margin"
    using room y4 by (simp add: margin_def)
  from content_lines_fit [OF this]
  have n5: "numberOfPages st5 = numberOfPages st + 1"
    and y5: "yPosition st5 = 35 + 10 * of_nat (length T) + 6 * of_nat (length C)"
    by (simp_all add: st5_def n4 y4)
  have n6: "numberOfPages st6 = numberOfPages st + 1"
    and y6: "yPosition st6 = 45 + 10 * of_nat (length T) + 6 * of_nat (length C)"
    by (simp_all add: st6_def n5 y5)
  have "yPosition st6 + 10 \<le> pageHeight env - margin"
    using room y6 by (simp add: margin_def)
  then have nb: "st7 = st6"
    unfolding st7_def by (rule check_no_break)
  have unfold: "section_pages env index result st = draw rule_op st9"
    by (simp add: section_pages_def Let_def st1_def st2_def st3_def st4_def st5_def st6_def
        st7_def src_def st9_def rule_op_def T_def C_def section_label_def)
  have ok2: "cursor_ok st2"
    using ok by (simp add: st2_def st1_def cursor_ok_def)
  from title_lines_ok [OF ok2, of env T]
  have ok3: "cursor_ok st3" and "extends_by (section_op env) st2 st3"
    by (simp_all add: st3_def)
  then have k3: "set (drawn st2) \<subseteq> set (drawn st3)"
    by (simp add: extends_by_keeps)
  have ok4: "cursor_ok st4" using ok3 by (simp add: st4_def cursor_ok_def)
  from content_lines_ok [OF ok4, of env C]
  have "extends_by (section_op env) st4 st5"
    by (simp add: st5_def)
  then have k5: "set (drawn st4) \<subseteq> set (drawn st5)"
    by (rule extends_by_keeps)
  have "(numberOfPages st + 1, section_label index) \<in> set (drawn (draw rule_op st9))"
    using lbl k3 k5 by (auto simp: st9_def nb st6_def st4_def)
  moreover have "numberOfPages (draw rule_op st9) = numberOfPages st + 1"
    by (simp add: st9_def nb n6)
  ultimately show ?thesis unfolding unfold by simp
qed

lemma sections_fit:
  assumes "cursor_ok st" and "list_all (fits_on_one_page env) results"
  shows "numberOfPages (sections env index results st) = numberOfPages st + length results
       \<and> (\<forall>i < length results.
            (numberOfPages st + 1 + i, section_label (index + i))
              \<in> set (drawn (sections env index results st)))"
  using assms
proof (induction results arbitrary: index st)
  case Nil
  then show ?case by simp
next
  case (Cons result rest)
  let ?st1 = "section_pages env index result st"
  from Cons.prems have fits: "fits_on_one_page env result" "list_all (fits_on_one_page env) rest"
    by simp_all
  from section_pages_fit [OF Cons.prems(1) fits(1), of index]
  have a: "numberOfPages ?st1 = numberOfPages st + 1"
    "(numberOfPages st + 1, section_label index) \<in> set (drawn ?st1)"
    by simp_all
  from section_pages_ok [OF Cons.prems(1), of env index result]
  have ok1: "cursor_ok ?st1" by simp
  from sections_ok [OF ok1, of env "index + 1" rest]
  have "extends_by (section_op env) ?st1 (sections env (index + 1) rest ?st1)"
    by blast
  then have keep: "set (drawn ?st1) \<subseteq> set (drawn (sections env (index + 1) rest ?st1))"
    by (rule extends_by_keeps)
  from Cons.IH [OF ok1 fits(2), of "index + 1"]
  have ih: "numberOfPages (sections env (index + 1) rest ?st1) = numberOfPages ?st1 + length rest"
    "\<forall>i < length rest. (numberOfPages ?st1 + 1 + i, section_label (index + 1 + i))
        \<in> set (drawn (sections env (index + 1) rest ?st1))"
    by simp_all
  have "(numberOfPages st + 1 + i, section_label (index + i))
          \<in> set (drawn (sections env (index + 1) rest ?st1))"
    if "i < length (result # rest)" for i
  proof (cases i)
    case 0
    with a(2) keep show ?thesis by auto
  next
    case (Suc j)
    with that have "j < length rest" by simp
    with ih(2) have "(numberOfPages ?st1 + 1 + j, section_label (index + 1 + j))
        \<in> set (drawn (sections env (index + 1) rest ?st1))"
      by blast
    moreover have "numberOfPages ?st1 + 1 + j = numberOfPages st + 1 + i"
      "index + 1 + j = index + i"
      using a(1) Suc by simp_all
    ultimately show ?thesis by (simp only:)
  qed
  with ih(1) a(1) show ?case by simp
qed

text \<open>
  Where the links are right: when every section fits on one page and the table of
  contents fits on page 2, the document has exactly two pages more than there are
  blocks, and the page \<open>i + 3\<close>, to which the link of block \<open>i\<close> goes, bears the
  label of section \<open>i\<close>.
\<close>

lemma layout_links_when_sections_fit:
  assumes fits: "list_all (fits_on_one_page env) results"
    and toc: "7 * of_nat (length results) + 58 \<le> pageHeight env"
    and i: "i < length results"
  shows "numberOfPages (layout env topic results) = length results + 2"
    and "toc_links (layout env topic results) ! i = i + 3"
    and "(i + 3, section_label i) \<in> set (drawn (layout env topic results))"
proof -
  let ?cov = "cover_page env topic new_document"
  let ?hd = "toc_heading ?cov"
  let ?toc = "toc_entries env 0 results ?hd"
  have cov: "numberOfPages ?cov = 1"
    using cover_page_ok [of env topic] by simp
  from toc_heading_ok [OF cov, of env]
  have h: "cursor_ok ?hd" "numberOfPages ?hd = 2" "yPosition ?hd = 35" by simp_all
  have "yPosition ?hd + 7 * of_nat (length results) + 3 \<le> pageHeight env - margin"
    using toc h(3) by (simp add: margin_def)
  from toc_entries_fit [OF this, of 0]
  have n: "numberOfPages ?toc = 2" by (simp add: h(2))
  from toc_entries_ok [OF h(1), of env 0 results] have ok: "cursor_ok ?toc" by simp
  from sections_fit [OF ok fits, of 0]
  have sf: "numberOfPages (sections env 0 results ?toc) = numberOfPages ?toc + length results"
    "\<forall>i < length results. (numberOfPages ?toc + 1 + i, section_label (0 + i))
        \<in> set (drawn (sections env 0 results ?toc))"
    by blast+
  from sf(2) i have "(numberOfPages ?toc + 1 + i, section_label (0 + i))
        \<in> set (drawn (sections env 0 results ?toc))"
    by blast
  moreover have "numberOfPages ?toc + 1 + i = i + 3" "0 + i = i"
    using n by simp_all
  ultimately have s2: "(i + 3, section_label i) \<in> set (drawn (cursor_layout env topic results))"
    unfolding cursor_layout_def by (simp only:)
  from sf(1) n
  have s: "numberOfPages (cursor_layout env topic results) = length results + 2"
    by (simp add: cursor_layout_def)
  note s = s s2
  from s(1) show "numberOfPages (layout env topic results) = length results + 2"
    by (simp add: layout_def footers_pages)
  from s(2) show "(i + 3, section_label i) \<in> set (drawn (layout env topic results))"
    by (simp add: layout_def footers_drawn)
  from i show "toc_links (layout env topic results) ! i = i + 3"
    by (simp add: layout_toc_links)
qed

text \<open>
  Claim C1 does not hold of the code. With a first block whose body has 40 lines, the
  first section runs from page 3 onto page 4 and the second section starts on page 5
  (the page that bears the label \<^verbatim>\<open>SECTION 2\<close>), while the second link of the table of
  contents goes to page 4, the last page of the first section.
\<close>

theorem toc_link_misses_wrapped_section:
  "toc_links (layout a4_env ''T'' [example_block ''A'' 39, example_block ''B'' 0]) = [3, 4]
   \<and> section_start_pages (layout a4_env ''T'' [example_block ''A'' 39, example_block ''B'' 0]) 0 = [3]
   \<and> section_start_pages (layout a4_env ''T'' [example_block ''A'' 39, example_block ''B'' 0]) 1 = [5]
   \<and> page_ops (layout a4_env ''T'' [example_block ''A'' 39, example_block ''B'' 0]) 4
       = [TextAt ''x'' 20 20, TextAt ''x'' 20 26, TextAt ''Source: src'' 20 42,
          LineTo 20 47 (pageWidth a4_env - 20) 47,
          TextCentered ''T - Page 4 of 5'' (pageWidth a4_env / 2) (pageHeight a4_env - 10)]"
  by code_simp

end
